theory Spec2Isabelle
  imports Main "HOL-Library.Word" "HOL-Library.AList" "HOL-Library.Multiset"
begin

section \<open>Data model\<close>

text \<open>Versions are Go \<^verbatim>\<open>uint64\<close> values: 64-bit words, \<open>+\<close> wraps.\<close>

type_synonym version = "64 word"

datatype Source = SourceSeed | SourceEnv | SourceFlag | SourceFile | SourceConsul | SourceRedis

text \<open>
  Modelled from the spec: the package \<^verbatim>\<open>config\<close> is not among the sources; the
  specification gives the string values of \<^verbatim>\<open>config.Source\<close> as seed, env, flag,
  file, consul, redis. They only occur in diagnostic texts.
\<close>

fun sourceName :: "Source \<Rightarrow> string" where
  "sourceName SourceSeed = ''seed''"
| "sourceName SourceEnv = ''env''"
| "sourceName SourceFlag = ''flag''"
| "sourceName SourceFile = ''file''"
| "sourceName SourceConsul = ''consul''"
| "sourceName SourceRedis = ''redis''"

text \<open>
  A \<^verbatim>\<open>*config.Field\<close>: \<open>ptr\<close> is the identity of the pointer, \<open>Name\<close> and
  \<open>Sources\<close> are what the methods of the same name return. \<open>Sources\<close> is a Go map from
  source to key; it is kept as an association list whose order stands for the order in
  which \<^verbatim>\<open>range\<close> happens to visit it, and is read with \<open>map_of\<close>. The value
  cell behind the pointer lives in a store that only \<^verbatim>\<open>Field.Set\<close> touches.
\<close>

record Field =
  ptr :: nat
  Name :: string
  Sources :: "(Source \<times> string) list"

text \<open>
  \<^verbatim>\<open>Field.Set(value, version) error\<close> belongs to the package \<^verbatim>\<open>config\<close> and is a
  parameter of everything below: given the field, the text, the version and the
  store, it returns the error (if any) and the store it leaves behind.
\<close>

type_synonym 's setter = "Field \<Rightarrow> string \<Rightarrow> version \<Rightarrow> 's \<Rightarrow> string option \<times> 's"

datatype Change =
  NewChange (changeSource: Source) (changeKey: string) (changeValue: string) (changeVersion: version)


section \<open>The poll watcher (monitor/redis/watcher.go)\<close>

record Watcher =
  keys :: "string list"
  versions :: "version list"
  hashes :: "string list"
  pollInterval :: int

text \<open>\<^verbatim>\<open>New\<close>: the client is external, only its presence is checked.\<close>

definition redis_New :: "bool \<Rightarrow> int \<Rightarrow> string list \<Rightarrow> string + Watcher" where
  "redis_New clientPresent interval ks =
     (if \<not> clientPresent then Inl ''client is nil''
      else if interval \<le> 0 then Inl ''poll interval should be a positive number''
      else if length ks = 0 then Inl ''keys are empty''
      else Inr \<lparr> keys = ks,
                 versions = replicate (length ks) 0,
                 hashes = replicate (length ks) [],
                 pollInterval = interval \<rparr>)"

text \<open>
  The result of \<^verbatim>\<open>client.MGet(ctx, keys...).Result()\<close>: an error, or one entry per
  requested key, \<open>None\<close> standing for a nil entry.
\<close>

datatype fetch = FetchError string | Fetched "string option list"

text \<open>What one call of \<^verbatim>\<open>getValues\<close> does to the channel.\<close>

datatype tick = Quiet | Sent "Change list" | IndexPanic

text \<open>
  The body of \<^verbatim>\<open>for i, key := range w.keys\<close>. The digest function
  (\<^verbatim>\<open>w.hash\<close>, the hex form of MD5) is the parameter \<open>h\<close>. Reading
  \<^verbatim>\<open>values[i]\<close> beyond the fetched slice panics.
\<close>

fun getValuesLoop ::
  "(string \<Rightarrow> string) \<Rightarrow> string option list \<Rightarrow> nat \<Rightarrow> string list \<Rightarrow>
   Watcher \<Rightarrow> Change list \<Rightarrow> Watcher \<times> Change list option" where
  "getValuesLoop h values i [] w changes = (w, Some changes)"
| "getValuesLoop h values i (key # rest) w changes =
     (if length values \<le> i then (w, None)
      else case values ! i of
        None \<Rightarrow> getValuesLoop h values (Suc i) rest w changes
      | Some value \<Rightarrow>
          (let hash = h value in
           if hash = hashes w ! i then getValuesLoop h values (Suc i) rest w changes
           else
             (let w1 = w\<lparr> versions := (versions w)[i := versions w ! i + 1] \<rparr>;
                  w2 = w1\<lparr> hashes := (hashes w1)[i := hash] \<rparr>
              in getValuesLoop h values (Suc i) rest w2
                   (changes @ [NewChange SourceRedis key value (versions w2 ! i)]))))"

definition getValues :: "(string \<Rightarrow> string) \<Rightarrow> Watcher \<Rightarrow> fetch \<Rightarrow> Watcher \<times> tick" where
  "getValues h w r =
     (case r of
        FetchError err \<Rightarrow> (w, Quiet)
      | Fetched values \<Rightarrow>
          (case getValuesLoop h values 0 (keys w) w [] of
             (w', None) \<Rightarrow> (w', IndexPanic)
           | (w', Some changes) \<Rightarrow>
               (if length changes = 0 then (w', Quiet) else (w', Sent changes))))"

text \<open>
  The loop of \<^verbatim>\<open>monitor\<close>: each turn of the \<^verbatim>\<open>select\<close> is an event, either the
  cancellation of the context or a tick of the timer together with what the fetch of
  that tick returns. The result is the watcher state and the batches sent on the
  channel, in order.
\<close>

datatype event = Done | Tick fetch

fun monitorLoop :: "(string \<Rightarrow> string) \<Rightarrow> Watcher \<Rightarrow> event list \<Rightarrow> Watcher \<times> Change list list" where
  "monitorLoop h w [] = (w, [])"
| "monitorLoop h w (Done # es) = (w, [])"
| "monitorLoop h w (Tick r # es) =
     (case getValues h w r of
        (w', IndexPanic) \<Rightarrow> (w', [])
      | (w', Quiet) \<Rightarrow> monitorLoop h w' es
      | (w', Sent cc) \<Rightarrow> (case monitorLoop h w' es of (w'', bs) \<Rightarrow> (w'', cc # bs)))"

text \<open>The slices \<open>versions\<close> and \<open>hashes\<close> are made with one slot per key.\<close>

definition wellFormed :: "Watcher \<Rightarrow> bool" where
  "wellFormed w \<longleftrightarrow> length (versions w) = length (keys w) \<and> length (hashes w) = length (keys w)"


section \<open>The push watcher's handlers (monitor/consul/watcher.go)\<close>

record KVPair =
  Key :: string
  Value :: string
  ModifyIndex :: version

text \<open>
  What the watch plan hands to a handler as \<^verbatim>\<open>data interface{}\<close>. The entries
  of a \<^verbatim>\<open>KVPairs\<close> value are pointers; they are taken to be non-nil, as the Consul
  client delivers them.
\<close>

datatype payload = NilData | PairData KVPair | PairsData "KVPair list" | OtherData

text \<open>
  \<^verbatim>\<open>for i := 0; i < len(pp); i++ { cc[i] = change.New(...) }\<close> on a slice \<open>cc\<close> made
  with \<open>len(pp)\<close> nil entries.
\<close>

function fillChanges :: "KVPair list \<Rightarrow> nat \<Rightarrow> Change option list \<Rightarrow> Change option list" where
  "fillChanges pp i cc =
     (if i < length pp
      then fillChanges pp (Suc i)
             (cc[i := Some (NewChange SourceConsul (Key (pp ! i)) (Value (pp ! i)) (ModifyIndex (pp ! i)))])
      else cc)"
  by pat_completeness auto
termination
  by (relation "measure (\<lambda>(pp, i, cc). length pp - i)") auto

declare fillChanges.simps [simp del]

text \<open>The handler of a prefix plan; \<open>None\<close> is "nothing sent".\<close>

definition keyPrefixHandler :: "version \<Rightarrow> payload \<Rightarrow> Change option list option" where
  "keyPrefixHandler idx data =
     (case data of
        NilData \<Rightarrow> None
      | PairsData pp \<Rightarrow> Some (fillChanges pp 0 (replicate (length pp) None))
      | _ \<Rightarrow> None)"

text \<open>The handler of a single-key plan, for the key \<open>key\<close> the item was created with.\<close>

definition keyHandler :: "string \<Rightarrow> version \<Rightarrow> payload \<Rightarrow> Change list option" where
  "keyHandler key idx data =
     (case data of
        NilData \<Rightarrow> None
      | PairData pair \<Rightarrow> Some [NewChange SourceConsul key (Value pair) (ModifyIndex pair)]
      | _ \<Rightarrow> None)"


section \<open>The monitor (package monitor)\<close>

type_synonym sourceMap = "Source \<rightharpoonup> (string \<rightharpoonup> Field)"

text \<open>The inner loop of \<^verbatim>\<open>generateMap\<close>, over the sources of one field.\<close>

fun addSources :: "Field \<Rightarrow> (Source \<times> string) list \<Rightarrow> sourceMap \<Rightarrow> string + sourceMap" where
  "addSources f [] mp = Inr mp"
| "addSources f ((source, val) # rest) mp =
     (if source = SourceSeed then addSources f rest mp
      else case mp source of
        None \<Rightarrow> addSources f rest (mp(source \<mapsto> [val \<mapsto> f]))
      | Some inner \<Rightarrow>
          (case inner val of
             Some g \<Rightarrow> Inl (sourceName source @ '' key '' @ val @ '' already exists in monitor map'')
           | None \<Rightarrow> addSources f rest (mp(source \<mapsto> inner(val \<mapsto> f)))))"

fun generateMapFrom :: "Field list \<Rightarrow> sourceMap \<Rightarrow> string + sourceMap" where
  "generateMapFrom [] mp = Inr mp"
| "generateMapFrom (f # ff) mp =
     (case addSources f (Sources f) mp of
        Inl err \<Rightarrow> Inl err
      | Inr mp' \<Rightarrow> generateMapFrom ff mp')"

definition generateMap :: "Field list \<Rightarrow> string + sourceMap" where
  "generateMap ff = generateMapFrom ff Map.empty"

record Config =
  Fields :: "Field list"

record 'w Monitor =
  cfg :: Config
  mp :: sourceMap
  ww :: "'w list"

text \<open>\<^verbatim>\<open>monitor.New\<close>; it calls no method of the watchers it is given.\<close>

definition monitor_New :: "Config option \<Rightarrow> 'w list \<Rightarrow> string + 'w Monitor" where
  "monitor_New c watchers =
     (case c of
        None \<Rightarrow> Inl ''config is nil''
      | Some conf \<Rightarrow>
          (if length watchers = 0 then Inl ''watchers are empty''
           else case generateMap (Fields conf) of
             Inl err \<Rightarrow> Inl err
           | Inr m \<Rightarrow> Inr \<lparr> cfg = conf, mp = m, ww = watchers \<rparr>))"

text \<open>
  \<^verbatim>\<open>Monitor.Monitor\<close> calls \<^verbatim>\<open>Watch\<close> on each watcher in turn and stops at the
  first error. A watcher is represented by what its \<^verbatim>\<open>Watch\<close> returns; the result
  is the error and the number of watchers started.
\<close>

fun startWatchers :: "string option list \<Rightarrow> string option \<times> nat" where
  "startWatchers [] = (None, 0)"
| "startWatchers (None # rest) = (case startWatchers rest of (e, n) \<Rightarrow> (e, Suc n))"
| "startWatchers (Some err # rest) = (Some err, 0)"

definition monitor_Monitor :: "string option Monitor \<Rightarrow> string option \<times> nat" where
  "monitor_Monitor m = startWatchers (ww m)"

text \<open>\<^verbatim>\<open>applyChange\<close>: one batch, against the routing table and the store.\<close>

fun applyChange :: "'s setter \<Rightarrow> sourceMap \<Rightarrow> Change list \<Rightarrow> 's \<Rightarrow> 's" where
  "applyChange fset m [] st = st"
| "applyChange fset m (c # cc) st =
     (case m (changeSource c) of
        None \<Rightarrow> applyChange fset m cc st
      | Some inner \<Rightarrow>
          (case inner (changeKey c) of
             None \<Rightarrow> applyChange fset m cc st
           | Some fld \<Rightarrow>
               (case fset fld (changeValue c) (changeVersion c) st of
                  (Some err, st') \<Rightarrow> applyChange fset m cc st'
                | (None, st') \<Rightarrow> applyChange fset m cc st')))"



section \<open>The seeder (seed/seed.go)\<close>

text \<open>\<^verbatim>\<open>Getter.Get(key) (*string, uint64, error)\<close>: the value (or nil), the version, the error.\<close>

type_synonym Getter = "string \<Rightarrow> string option \<times> version \<times> string option"

record Param =
  src :: Source
  getter :: Getter

record Seeder =
  getters :: "Source \<rightharpoonup> Getter"

definition seed_New :: "Param list \<Rightarrow> Seeder" where
  "seed_New pp = \<lparr> getters = foldl (\<lambda>gg p. gg(src p \<mapsto> getter p)) Map.empty pp \<rparr>"

text \<open>
  What \<^verbatim>\<open>Seed\<close> reads from outside the repository:
  \<^item> \<open>lookupEnv\<close>: \<^verbatim>\<open>os.LookupEnv\<close>;
  \<^item> \<open>readFile\<close>: \<^verbatim>\<open>ioutil.ReadFile\<close>, \<open>Inl\<close> the error, \<open>Inr\<close> the body;
  \<^item> \<open>flagVar defined key\<close>: the panic of \<^verbatim>\<open>flagSet.StringVar\<close> when it is asked to
    define \<open>key\<close> in a flag set that already defines the names \<open>defined\<close>, if it panics
    (the package \<^verbatim>\<open>flag\<close> does so on a name defined twice);
  \<^item> \<open>flagActual key\<close>: after the arguments of the command line have been parsed one
    at a time, \<open>Some v\<close> when \<^verbatim>\<open>flagSet.Visit\<close> enumerates the flag \<open>key\<close> (an argument
    has set it), \<open>v\<close> being the text its variable then holds;
  \<^item> \<open>fieldSet\<close>: \<^verbatim>\<open>Field.Set\<close>;
  \<^item> \<open>rangeOrder\<close>: the order in which \<^verbatim>\<open>range seedMap\<close> visits the entries.
\<close>

record 's world =
  lookupEnv :: "string \<rightharpoonup> string"
  readFile :: "string \<Rightarrow> string + string"
  flagVar :: "string list \<Rightarrow> string \<Rightarrow> string option"
  flagActual :: "string \<rightharpoonup> string"
  fieldSet :: "'s setter"
  rangeOrder :: "(Field \<times> bool) list \<Rightarrow> (Field \<times> bool) list"

text \<open>
  The local state of \<^verbatim>\<open>Seed\<close>: the store behind the fields, \<open>seedMap\<close> (entries in
  the order of their first insertion) and \<open>flagInfos\<close> (key and field; the flag set
  defines exactly the keys recorded here).
\<close>

record 's seedState =
  store :: 's
  seedMap :: "(Field \<times> bool) list"
  flagInfos :: "(string \<times> Field) list"

datatype failure = Error string | Panic string

text \<open>
  How a piece of the loop body ends: it falls through to the next statement, it
  executes \<^verbatim>\<open>continue\<close>, or it leaves \<^verbatim>\<open>Seed\<close>.
\<close>

datatype ctl = Next | Skip | Stop failure

definition andThen :: "('a \<Rightarrow> ctl \<times> 'a) \<Rightarrow> ('a \<Rightarrow> ctl \<times> 'a) \<Rightarrow> 'a \<Rightarrow> ctl \<times> 'a" where
  "andThen p q st = (case p st of (Next, st') \<Rightarrow> q st' | (c, st') \<Rightarrow> (c, st'))"

definition setSeeded :: "Field \<Rightarrow> bool \<Rightarrow> 's seedState \<Rightarrow> 's seedState" where
  "setSeeded f b st = st\<lparr> seedMap := AList.update f b (seedMap st) \<rparr>"

text \<open>
  \<^verbatim>\<open>err := f.Set(val, ver); if err != nil { return err }; seedMap[f] = true\<close>
\<close>

definition applySet :: "'s world \<Rightarrow> Field \<Rightarrow> string \<Rightarrow> version \<Rightarrow> 's seedState \<Rightarrow> ctl \<times> 's seedState" where
  "applySet w f val ver st =
     (case fieldSet w f val ver (store st) of
        (Some err, s') \<Rightarrow> (Stop (Error err), st\<lparr> store := s' \<rparr>)
      | (None, s') \<Rightarrow> (Next, setSeeded f True (st\<lparr> store := s' \<rparr>)))"

definition seedFromSeed :: "'s world \<Rightarrow> Field \<Rightarrow> 's seedState \<Rightarrow> ctl \<times> 's seedState" where
  "seedFromSeed w f st =
     (case map_of (Sources f) SourceSeed of
        None \<Rightarrow> (Next, st)
      | Some val \<Rightarrow> applySet w f val 0 st)"

definition seedFromEnv :: "'s world \<Rightarrow> Field \<Rightarrow> 's seedState \<Rightarrow> ctl \<times> 's seedState" where
  "seedFromEnv w f st =
     (case map_of (Sources f) SourceEnv of
        None \<Rightarrow> (Next, st)
      | Some key \<Rightarrow>
          (case lookupEnv w key of
             Some val \<Rightarrow> applySet w f val 0 st
           | None \<Rightarrow> (Next, st)))"

definition registerFlag :: "'s world \<Rightarrow> Field \<Rightarrow> 's seedState \<Rightarrow> ctl \<times> 's seedState" where
  "registerFlag w f st =
     (case map_of (Sources f) SourceFlag of
        None \<Rightarrow> (Next, st)
      | Some key \<Rightarrow>
          (case flagVar w (map fst (flagInfos st)) key of
             Some msg \<Rightarrow> (Stop (Panic msg), st)
           | None \<Rightarrow> (Next, st\<lparr> flagInfos := flagInfos st @ [(key, f)] \<rparr>)))"

definition seedFromFile :: "'s world \<Rightarrow> Field \<Rightarrow> 's seedState \<Rightarrow> ctl \<times> 's seedState" where
  "seedFromFile w f st =
     (case map_of (Sources f) SourceFile of
        None \<Rightarrow> (Next, st)
      | Some key \<Rightarrow>
          (case readFile w key of
             Inl err \<Rightarrow> (Next, st)
           | Inr body \<Rightarrow> applySet w f body 0 st))"

text \<open>
  The Consul block and the Redis block are the same text up to the source and the
  message; both leave the loop body with \<^verbatim>\<open>continue\<close> when the lookup fails or
  finds nothing.
\<close>

definition seedFromGetter ::
  "'s world \<Rightarrow> (Source \<rightharpoonup> Getter) \<Rightarrow> Source \<Rightarrow> string \<Rightarrow> Field \<Rightarrow> 's seedState \<Rightarrow> ctl \<times> 's seedState" where
  "seedFromGetter w gg source required f st =
     (case map_of (Sources f) source of
        None \<Rightarrow> (Next, st)
      | Some key \<Rightarrow>
          (case gg source of
             None \<Rightarrow> (Stop (Error required), st)
           | Some gtr \<Rightarrow>
               (case gtr key of
                  (value, version, Some err) \<Rightarrow> (Skip, st)
                | (None, version, None) \<Rightarrow> (Skip, st)
                | (Some val, version, None) \<Rightarrow> applySet w f val version st)))"

definition seedFromConsul :: "'s world \<Rightarrow> (Source \<rightharpoonup> Getter) \<Rightarrow> Field \<Rightarrow> 's seedState \<Rightarrow> ctl \<times> 's seedState" where
  "seedFromConsul w gg = seedFromGetter w gg SourceConsul ''consul getter required''"

definition seedFromRedis :: "'s world \<Rightarrow> (Source \<rightharpoonup> Getter) \<Rightarrow> Field \<Rightarrow> 's seedState \<Rightarrow> ctl \<times> 's seedState" where
  "seedFromRedis w gg = seedFromGetter w gg SourceRedis ''redis getter required''"

text \<open>The body of \<^verbatim>\<open>for _, f := range cfg.Fields\<close>.\<close>

definition seedField :: "'s world \<Rightarrow> (Source \<rightharpoonup> Getter) \<Rightarrow> Field \<Rightarrow> 's seedState \<Rightarrow> ctl \<times> 's seedState" where
  "seedField w gg f st =
     andThen (seedFromSeed w f)
      (andThen (seedFromEnv w f)
        (andThen (registerFlag w f)
          (andThen (seedFromFile w f)
            (andThen (seedFromConsul w gg f)
              (seedFromRedis w gg f)))))
      (setSeeded f False st)"

fun seedFields :: "'s world \<Rightarrow> (Source \<rightharpoonup> Getter) \<Rightarrow> Field list \<Rightarrow> 's seedState \<Rightarrow> ctl \<times> 's seedState" where
  "seedFields w gg [] st = (Next, st)"
| "seedFields w gg (f # ff) st =
     (case seedField w gg f st of
        (Stop fl, st') \<Rightarrow> (Stop fl, st')
      | (c, st') \<Rightarrow> seedFields w gg ff st')"

text \<open>\<^verbatim>\<open>for _, flagInfo := range flagInfos\<close>, after the command line has been parsed.\<close>

fun applyFlags :: "'s world \<Rightarrow> (string \<times> Field) list \<Rightarrow> 's seedState \<Rightarrow> ctl \<times> 's seedState" where
  "applyFlags w [] st = (Next, st)"
| "applyFlags w ((key, f) # rest) st =
     (case flagActual w key of
        Some val \<Rightarrow>
          (case applySet w f val 0 st of
             (Next, st') \<Rightarrow> applyFlags w rest st'
           | (c, st') \<Rightarrow> (c, st'))
      | None \<Rightarrow> applyFlags w rest st)"

definition notSeededText :: "Field \<Rightarrow> string" where
  "notSeededText f = ''field '' @ Name f @ '' not seeded''"

text \<open>The string builder after \<^verbatim>\<open>for f, seeded := range seedMap\<close>.\<close>

definition unseededReport :: "'s world \<Rightarrow> (Field \<times> bool) list \<Rightarrow> string" where
  "unseededReport w sm =
     concat (map (\<lambda>(f, seeded). if \<not> seeded then notSeededText f else []) (rangeOrder w sm))"

definition initState :: "'s \<Rightarrow> 's seedState" where
  "initState s0 = \<lparr> store = s0, seedMap = [], flagInfos = [] \<rparr>"

text \<open>
  The two loops of \<^verbatim>\<open>Seed\<close>, over the fields and then over the recorded flags:
  \<open>Stop\<close> when a \<^verbatim>\<open>return\<close> or a panic inside them leaves \<^verbatim>\<open>Seed\<close>, otherwise
  the state in which the final report is built.
\<close>

definition seedLoops :: "'s world \<Rightarrow> Seeder \<Rightarrow> Config \<Rightarrow> 's \<Rightarrow> ctl \<times> 's seedState" where
  "seedLoops w s c s0 =
     (case seedFields w (getters s) (Fields c) (initState s0) of
        (Stop fl, st) \<Rightarrow> (Stop fl, st)
      | (c1, st) \<Rightarrow> applyFlags w (flagInfos st) st)"

text \<open>
  \<^verbatim>\<open>Seed\<close>: the error returned (\<open>None\<close> is nil) or the panic raised, and the store
  the fields are left in.
\<close>

definition Seed :: "'s world \<Rightarrow> Seeder \<Rightarrow> Config \<Rightarrow> 's \<Rightarrow> failure option \<times> 's" where
  "Seed w s c s0 =
     (case seedLoops w s c s0 of
        (Stop fl, st) \<Rightarrow> (Some fl, store st)
      | (c2, st) \<Rightarrow>
          (let sb = unseededReport w (seedMap st)
           in if length sb > 0 then (Some (Error sb), store st) else (None, store st)))"



section \<open>Notions used to state the properties\<close>

subsection \<open>Poll watcher\<close>

text \<open>
  The fetched values leave every slot as it is: each configured key has an entry, and
  the entry is nil or has the digest stored for that slot.
\<close>

definition sameContent :: "(string \<Rightarrow> string) \<Rightarrow> Watcher \<Rightarrow> string option list \<Rightarrow> bool" where
  "sameContent h w vs \<longleftrightarrow>
     length (keys w) \<le> length vs \<and>
     list_all (\<lambda>i. case vs ! i of None \<Rightarrow> True | Some v \<Rightarrow> h v = hashes w ! i) [0..<length (keys w)]"

text \<open>The versions carried by the changes sent for the key \<open>k\<close>, in the order of sending.\<close>

definition versionsFor :: "string \<Rightarrow> Change list list \<Rightarrow> version list" where
  "versionsFor k bs = map changeVersion (filter (\<lambda>c. changeKey c = k) (concat bs))"

text \<open>A successful fetch for \<open>n\<close> keys answers with \<open>n\<close> entries.\<close>

fun fetchFits :: "nat \<Rightarrow> event \<Rightarrow> bool" where
  "fetchFits n (Tick (Fetched vs)) = (length vs = n)"
| "fetchFits n e = True"

text \<open>Slot \<open>j\<close> has a value whose digest differs from the stored one.\<close>

definition emits :: "(string \<Rightarrow> string) \<Rightarrow> Watcher \<Rightarrow> string option list \<Rightarrow> nat \<Rightarrow> bool" where
  "emits h w vs j = (case vs ! j of None \<Rightarrow> False | Some v \<Rightarrow> h v \<noteq> hashes w ! j)"

definition emitted :: "Watcher \<Rightarrow> string option list \<Rightarrow> nat \<Rightarrow> Change" where
  "emitted w vs j = NewChange SourceRedis (keys w ! j) (the (vs ! j)) (versions w ! j + 1)"

fun batches :: "tick \<Rightarrow> Change list list" where
  "batches (Sent cc) = [cc]"
| "batches t = []"

subsection \<open>Monitor\<close>

definition routeOf :: "sourceMap \<Rightarrow> Source \<Rightarrow> string \<Rightarrow> Field option" where
  "routeOf m source key = (case m source of None \<Rightarrow> None | Some inner \<Rightarrow> inner key)"

definition route :: "sourceMap \<Rightarrow> Change \<Rightarrow> Field option" where
  "route m c = routeOf m (changeSource c) (changeKey c)"

text \<open>The (source, key) pairs a field claims in the routing table: all but its seed.\<close>

definition claimed :: "Field \<Rightarrow> (Source \<times> string) list" where
  "claimed f = filter (\<lambda>(source, key). source \<noteq> SourceSeed) (Sources f)"

text \<open>Some field of the list and a later one claim a common pair.\<close>

fun duplicateClaim :: "Field list \<Rightarrow> bool" where
  "duplicateClaim [] = False"
| "duplicateClaim (f # ff) = ((\<exists>g \<in> set ff. set (claimed f) \<inter> set (claimed g) \<noteq> {}) \<or> duplicateClaim ff)"

definition duplicateKeyError :: "Source \<Rightarrow> string \<Rightarrow> string" where
  "duplicateKeyError source key = sourceName source @ '' key '' @ key @ '' already exists in monitor map''"

definition taken :: "sourceMap \<Rightarrow> (Source \<times> string) set" where
  "taken m = {(s, k). routeOf m s k \<noteq> None}"

subsection \<open>Seeder: the calls of \<open>Field.Set\<close>\<close>

text \<open>
  To speak about the calls of \<^verbatim>\<open>Field.Set\<close> that \<^verbatim>\<open>Seed\<close> makes, \<^verbatim>\<open>Seed\<close> is run
  on fields whose \<^verbatim>\<open>Set\<close> also records each call, with the error it returned, in a
  log kept beside the store.
\<close>

type_synonym call = "Field \<times> string \<times> version \<times> string option"

definition callField :: "call \<Rightarrow> Field" where
  "callField x = fst x"

definition callError :: "call \<Rightarrow> string option" where
  "callError x = snd (snd (snd x))"

definition tracedSet :: "'s setter \<Rightarrow> ('s \<times> call list) setter" where
  "tracedSet fset f val ver sl =
     (case fset f val ver (fst sl) of (e, s') \<Rightarrow> (e, (s', snd sl @ [(f, val, ver, e)])))"

definition traced :: "'s world \<Rightarrow> ('s \<times> call list) world" where
  "traced w = \<lparr> lookupEnv = lookupEnv w, readFile = readFile w, flagVar = flagVar w,
                flagActual = flagActual w, fieldSet = tracedSet (fieldSet w),
                rangeOrder = rangeOrder w \<rparr>"

definition SeedTrace :: "'s world \<Rightarrow> Seeder \<Rightarrow> Config \<Rightarrow> 's \<Rightarrow> failure option \<times> 's \<times> call list" where
  "SeedTrace w s c s0 = (case Seed (traced w) s c (s0, []) of (r, (s1, log)) \<Rightarrow> (r, s1, log))"

text \<open>The store after the calls of a log, each applied whatever it returned.\<close>

definition applyCall :: "'s setter \<Rightarrow> 's \<Rightarrow> call \<Rightarrow> 's" where
  "applyCall fset s x = snd (fset (fst x) (fst (snd x)) (fst (snd (snd x))) s)"

text \<open>The fields of the configuration on which the log shows no call.\<close>

definition unseeded :: "Config \<Rightarrow> call list \<Rightarrow> Field list" where
  "unseeded c log = filter (\<lambda>f. f \<notin> set (map callField log)) (remdups (Fields c))"

subsection \<open>Seeder: the statements \<open>Seed\<close> reaches, in program order\<close>

text \<open>
  What the environment, the files, the getters and the command line decide, without
  the store: for each field the entry in \<open>seedMap\<close>, then the calls of \<^verbatim>\<open>Set\<close> for
  seed, environment, file, Consul and Redis, the definition of its flag and the fatal
  checks; after all fields, the calls of \<^verbatim>\<open>Set\<close> for the flags that were given.
  A Consul lookup that fails or finds nothing ends the part of its field.
\<close>

datatype action = Visit Field | SetValue Field string version | DefineFlag string Field | Fail string

fun exec :: "'s world \<Rightarrow> action \<Rightarrow> 's seedState \<Rightarrow> ctl \<times> 's seedState" where
  "exec w (Visit f) st = (Next, setSeeded f False st)"
| "exec w (SetValue f val ver) st = applySet w f val ver st"
| "exec w (DefineFlag key f) st =
     (case flagVar w (map fst (flagInfos st)) key of
        Some msg \<Rightarrow> (Stop (Panic msg), st)
      | None \<Rightarrow> (Next, st\<lparr> flagInfos := flagInfos st @ [(key, f)] \<rparr>))"
| "exec w (Fail msg) st = (Stop (Error msg), st)"

fun run :: "'s world \<Rightarrow> action list \<Rightarrow> 's seedState \<Rightarrow> ctl \<times> 's seedState" where
  "run w [] st = (Next, st)"
| "run w (a # as) st = (case exec w a st of (Next, st') \<Rightarrow> run w as st' | (c, st') \<Rightarrow> (c, st'))"

definition seedPart :: "Field \<Rightarrow> action list" where
  "seedPart f = (case map_of (Sources f) SourceSeed of None \<Rightarrow> [] | Some val \<Rightarrow> [SetValue f val 0])"

definition envPart :: "'s world \<Rightarrow> Field \<Rightarrow> action list" where
  "envPart w f =
     (case map_of (Sources f) SourceEnv of
        None \<Rightarrow> []
      | Some key \<Rightarrow> (case lookupEnv w key of None \<Rightarrow> [] | Some val \<Rightarrow> [SetValue f val 0]))"

definition flagPart :: "Field \<Rightarrow> action list" where
  "flagPart f = (case map_of (Sources f) SourceFlag of None \<Rightarrow> [] | Some key \<Rightarrow> [DefineFlag key f])"

definition filePart :: "'s world \<Rightarrow> Field \<Rightarrow> action list" where
  "filePart w f =
     (case map_of (Sources f) SourceFile of
        None \<Rightarrow> []
      | Some key \<Rightarrow> (case readFile w key of Inl err \<Rightarrow> [] | Inr body \<Rightarrow> [SetValue f body 0]))"

text \<open>The second component tells whether the loop body goes on after the block.\<close>

definition getterPart :: "(Source \<rightharpoonup> Getter) \<Rightarrow> Source \<Rightarrow> string \<Rightarrow> Field \<Rightarrow> action list \<times> bool" where
  "getterPart gg source required f =
     (case map_of (Sources f) source of
        None \<Rightarrow> ([], True)
      | Some key \<Rightarrow>
          (case gg source of
             None \<Rightarrow> ([Fail required], True)
           | Some gtr \<Rightarrow>
               (case gtr key of
                  (value, version, Some err) \<Rightarrow> ([], False)
                | (None, version, None) \<Rightarrow> ([], False)
                | (Some val, version, None) \<Rightarrow> ([SetValue f val version], True))))"

definition storePart :: "(Source \<rightharpoonup> Getter) \<Rightarrow> Field \<Rightarrow> action list" where
  "storePart gg f =
     (case getterPart gg SourceConsul ''consul getter required'' f of
        (acts, goesOn) \<Rightarrow>
          acts @ (if goesOn then fst (getterPart gg SourceRedis ''redis getter required'' f) else []))"

definition bodyPlan :: "'s world \<Rightarrow> (Source \<rightharpoonup> Getter) \<Rightarrow> Field \<Rightarrow> action list" where
  "bodyPlan w gg f = seedPart f @ envPart w f @ flagPart f @ filePart w f @ storePart gg f"

definition fieldPlan :: "'s world \<Rightarrow> (Source \<rightharpoonup> Getter) \<Rightarrow> Field \<Rightarrow> action list" where
  "fieldPlan w gg f = Visit f # bodyPlan w gg f"

definition flagApply :: "'s world \<Rightarrow> string \<times> Field \<Rightarrow> action list" where
  "flagApply w kf = (case flagActual w (fst kf) of None \<Rightarrow> [] | Some val \<Rightarrow> [SetValue (snd kf) val 0])"

definition flagKeys :: "Field list \<Rightarrow> (string \<times> Field) list" where
  "flagKeys ff = concat (map (\<lambda>f. case map_of (Sources f) SourceFlag of None \<Rightarrow> [] | Some key \<Rightarrow> [(key, f)]) ff)"

definition seedPlan :: "'s world \<Rightarrow> (Source \<rightharpoonup> Getter) \<Rightarrow> Field list \<Rightarrow> action list" where
  "seedPlan w gg ff = concat (map (fieldPlan w gg) ff) @ concat (map (flagApply w) (flagKeys ff))"

text \<open>
  The rest of this subsection serves the proofs. Two results agree when they stop
  alike or both go on, with the same state.
\<close>

definition agrees :: "ctl \<times> 'a \<Rightarrow> ctl \<times> 'a \<Rightarrow> bool" where
  "agrees r p \<longleftrightarrow> (case r of (Stop fl, st') \<Rightarrow> p = (Stop fl, st') | (c, st') \<Rightarrow> p = (Next, st'))"

text \<open>A state of the run that logs its calls, from a state of the run that does not.\<close>

definition lift :: "'s seedState \<Rightarrow> call list \<Rightarrow> ('s \<times> call list) seedState" where
  "lift st lg = \<lparr> store = (store st, lg), seedMap = seedMap st, flagInfos = flagInfos st \<rparr>"

text \<open>The calls of \<^verbatim>\<open>Set\<close> made when the statements are run from a state.\<close>

fun callOf :: "'s world \<Rightarrow> action \<Rightarrow> 's seedState \<Rightarrow> call list" where
  "callOf w (SetValue f val ver) st = [(f, val, ver, fst (fieldSet w f val ver (store st)))]"
| "callOf w a st = []"

fun callsOf :: "'s world \<Rightarrow> action list \<Rightarrow> 's seedState \<Rightarrow> call list" where
  "callsOf w [] st = []"
| "callsOf w (a # as) st =
     callOf w a st @ (case exec w a st of (Next, st') \<Rightarrow> callsOf w as st' | (c, st') \<Rightarrow> [])"

text \<open>The flag a statement defines, the entry of \<open>seedMap\<close> it writes, the field it sets.\<close>

fun definedBy :: "action \<Rightarrow> (string \<times> Field) list" where
  "definedBy (DefineFlag key f) = [(key, f)]"
| "definedBy a = []"

fun mark :: "Field \<Rightarrow> bool option \<Rightarrow> action \<Rightarrow> bool option" where
  "mark f b (Visit g) = (if g = f then Some False else b)"
| "mark f b (SetValue g val ver) = (if g = f then Some True else b)"
| "mark f b a = b"

fun setOn :: "action \<Rightarrow> Field list" where
  "setOn (SetValue f val ver) = [f]"
| "setOn a = []"

definition setsOf :: "action list \<Rightarrow> Field set" where
  "setsOf acts = set (concat (map setOn acts))"

fun isVisit :: "action \<Rightarrow> bool" where
  "isVisit (Visit f) = True"
| "isVisit a = False"


section \<open>Example instances\<close>

text \<open>A stand-in for the digest: injective, and never the empty string.\<close>

definition tagDigest :: "string \<Rightarrow> string" where
  "tagDigest v = CHR ''#'' # v"

definition abWatcher :: Watcher where
  "abWatcher = \<lparr> keys = [''a'', ''b''], versions = [0, 0], hashes = [[], []], pollInterval = 100 \<rparr>"

definition aaWatcher :: Watcher where
  "aaWatcher = \<lparr> keys = [''a'', ''a''], versions = [0, 0], hashes = [[], []], pollInterval = 100 \<rparr>"

definition seenWatcher :: Watcher where
  "seenWatcher = \<lparr> keys = [''a'', ''b''], versions = [1, 2], hashes = [''#1'', ''#3''], pollInterval = 100 \<rparr>"

text \<open>
  A store of cells, one per field pointer, and a \<^verbatim>\<open>Set\<close> that rejects the text
  \<open>NaN\<close> and stores any other text with its version.
\<close>

type_synonym cells = "nat \<rightharpoonup> string \<times> version"

definition cellSet :: "cells setter" where
  "cellSet f val ver s =
     (if val = ''NaN'' then (Some ''invalid syntax'', s) else (None, s(ptr f \<mapsto> (val, ver))))"

definition exampleWorld :: "cells world" where
  "exampleWorld =
     \<lparr> lookupEnv = [''LOG_LEVEL'' \<mapsto> ''INFO'', ''RETENTION'' \<mapsto> ''NaN''],
       readFile = (\<lambda>path. Inl ''no such file''),
       flagVar = (\<lambda>defined key. if key \<in> set defined then Some (''flag redefined: '' @ key) else None),
       flagActual = Map.empty,
       fieldSet = cellSet,
       rangeOrder = rev \<rparr>"

definition fullWorld :: "cells world" where
  "fullWorld =
     exampleWorld\<lparr> readFile := (\<lambda>path. if path = ''/etc/level'' then Inr ''ERROR'' else Inl ''no such file''),
                   flagActual := [''loglevel'' \<mapsto> ''TRACE''] \<rparr>"

definition consulGetter :: Getter where
  "consulGetter key = (if key = ''level'' then (Some ''FATAL'', 11, None) else (None, 0, None))"

definition failingGetter :: Getter where
  "failingGetter key = (None, 0, Some ''connection refused'')"

definition emptyGetter :: Getter where
  "emptyGetter key = (None, 0, None)"

definition redisGetter :: Getter where
  "redisGetter key = (if key = ''level'' then (Some ''WARN'', 3, None) else (None, 0, None))"

definition levelField :: Field where
  "levelField = \<lparr> ptr = 1, Name = ''Level'', Sources = [(SourceConsul, ''level''), (SourceRedis, ''level'')] \<rparr>"

definition modeField :: Field where
  "modeField = \<lparr> ptr = 2, Name = ''Mode'',
       Sources = [(SourceSeed, ''DEBUG''), (SourceConsul, ''mode''), (SourceRedis, ''level'')] \<rparr>"

definition retentionField :: Field where
  "retentionField = \<lparr> ptr = 3, Name = ''Retention'',
       Sources = [(SourceSeed, ''43200''), (SourceEnv, ''RETENTION'')] \<rparr>"

definition indexField :: Field where
  "indexField = \<lparr> ptr = 4, Name = ''Index'', Sources = [(SourceSeed, ''customers-v1'')] \<rparr>"

definition balanceField :: Field where
  "balanceField = \<lparr> ptr = 5, Name = ''Balance'',
       Sources = [(SourceSeed, ''0.0''), (SourceConsul, ''balance'')] \<rparr>"

definition hostField :: Field where
  "hostField = \<lparr> ptr = 6, Name = ''Host'', Sources = [(SourceEnv, ''HOST'')] \<rparr>"

definition plainField :: Field where
  "plainField = \<lparr> ptr = 7, Name = ''Plain'', Sources = [] \<rparr>"

definition logLevelField :: Field where
  "logLevelField = \<lparr> ptr = 8, Name = ''LogLevel'',
       Sources = [(SourceSeed, ''DEBUG''), (SourceEnv, ''LOG_LEVEL''), (SourceFlag, ''loglevel'')] \<rparr>"

definition everyField :: Field where
  "everyField = \<lparr> ptr = 12, Name = ''Every'',
       Sources = [(SourceSeed, ''DEBUG''), (SourceEnv, ''LOG_LEVEL''), (SourceFlag, ''loglevel''),
                  (SourceFile, ''/etc/level''), (SourceConsul, ''level''), (SourceRedis, ''level'')] \<rparr>"

definition cfgField :: Field where
  "cfgField = \<lparr> ptr = 9, Name = ''X'', Sources = [(SourceSeed, ''1''), (SourceConsul, ''cfg/x'')] \<rparr>"

definition otherField :: Field where
  "otherField = \<lparr> ptr = 10, Name = ''Y'', Sources = [(SourceSeed, ''1''), (SourceConsul, ''cfg/y'')] \<rparr>"

definition clashField :: Field where
  "clashField = \<lparr> ptr = 11, Name = ''Z'', Sources = [(SourceEnv, ''Z''), (SourceConsul, ''cfg/x'')] \<rparr>"

definition exampleRoutes :: sourceMap where
  "exampleRoutes = [SourceConsul \<mapsto> [''cfg/x'' \<mapsto> cfgField, ''cfg/y'' \<mapsto> otherField]]"

section \<open>The poll watcher: properties\<close>

lemma getValuesLoop_same:
  "i + length rest \<le> length vs \<Longrightarrow>
   \<forall>j. i \<le> j \<and> j < i + length rest \<longrightarrow> (case vs ! j of None \<Rightarrow> True | Some v \<Rightarrow> h v = hashes w ! j) \<Longrightarrow>
   getValuesLoop h vs i rest w changes = (w, Some changes)"
proof (induction rest arbitrary: i)
  case Nil
  then show ?case by simp
next
  case (Cons key rest)
  have here: "case vs ! i of None \<Rightarrow> True | Some v \<Rightarrow> h v = hashes w ! i"
    using Cons.prems(2) by simp
  have rest: "getValuesLoop h vs (Suc i) rest w changes = (w, Some changes)"
    using Cons.prems by (intro Cons.IH) auto
  show ?case using here rest Cons.prems(1)
    by (auto split: option.splits simp: Let_def)
qed

lemma getValues_same: "sameContent h w vs \<Longrightarrow> getValues h w (Fetched vs) = (w, Quiet)"
  using getValuesLoop_same[of 0 "keys w" vs h w "[]"]
  by (simp add: sameContent_def getValues_def list_all_iff)

text \<open>
  Claim C9. When the bulk fetch of a tick returns an error, \<^verbatim>\<open>getValues\<close> sends
  nothing and leaves the keys, hashes and version counters as they were, and the poll
  loop goes on with the next event exactly as if the tick had not happened.
\<close>

theorem poll_fetch_error_skips_tick:
  "getValues h w (FetchError err) = (w, Quiet) \<and>
   monitorLoop h w (Tick (FetchError err) # es) = monitorLoop h w es"
  by (simp add: getValues_def)

text \<open>
  Claim C5. In a watcher with one hash and one counter per key, a tick whose fetched
  values all have the stored digest of their slot (or are absent) returns the watcher
  state unchanged, hashes and version counters included, and sends nothing; any number
  of such ticks in a row leaves the poll loop where it was, with nothing sent.
\<close>

theorem poll_unchanged_is_noop:
  assumes "wellFormed w" and "\<forall>vs \<in> set rs. sameContent h w vs"
  shows "(\<forall>vs \<in> set rs. getValues h w (Fetched vs) = (w, Quiet)) \<and>
         monitorLoop h w (map (\<lambda>vs. Tick (Fetched vs)) rs @ es) = monitorLoop h w es"
  using assms(2) by (induction rs) (simp_all add: getValues_same)

theorem poll_unchanged_is_noop_witness:
  "wellFormed seenWatcher \<and>
   list_all (sameContent tagDigest seenWatcher) [[Some ''1'', Some ''3''], [None, Some ''3'']] \<and>
   getValues tagDigest seenWatcher (Fetched [Some ''1'', Some ''3'']) = (seenWatcher, Quiet) \<and>
   getValues tagDigest seenWatcher (Fetched [None, Some ''3'']) = (seenWatcher, Quiet) \<and>
   monitorLoop tagDigest seenWatcher
      (map (\<lambda>vs. Tick (Fetched vs)) [[Some ''1'', Some ''3''], [None, Some ''3'']] @ [Done]) =
     (seenWatcher, [])"
proof -
  have wf: "wellFormed seenWatcher"
    by (simp add: wellFormed_def seenWatcher_def)
  have h: "\<forall>vs \<in> set [[Some ''1'', Some ''3''], [None, Some ''3'']]. sameContent tagDigest seenWatcher vs"
    by (simp add: sameContent_def seenWatcher_def tagDigest_def)
  from poll_unchanged_is_noop[OF wf h, of "[Done]"] show ?thesis using wf h by simp
qed

lemma getValuesLoop_spec:
  "drop i (keys w0) = rest \<Longrightarrow> keys w = keys w0 \<Longrightarrow> length (keys w0) \<le> length vs \<Longrightarrow>
   length (versions w) = length (keys w0) \<Longrightarrow> length (hashes w) = length (keys w0) \<Longrightarrow>
   \<exists>w'. getValuesLoop h vs i rest w changes =
           (w', Some (changes @ map (emitted w vs) (filter (emits h w vs) [i..<length (keys w0)]))) \<and>
        keys w' = keys w0 \<and> pollInterval w' = pollInterval w \<and>
        length (versions w') = length (keys w0) \<and> length (hashes w') = length (keys w0) \<and>
        (\<forall>j. versions w' ! j = (if i \<le> j \<and> j < length (keys w0) \<and> emits h w vs j
                                then versions w ! j + 1 else versions w ! j))"
proof (induction rest arbitrary: i w changes)
  case Nil
  then have "length (keys w0) \<le> i" by simp
  then show ?case using Nil.prems by simp
next
  case (Cons key rest)
  have i: "i < length (keys w0)" using Cons.prems(1) by (metis drop_eq_Nil list.distinct(1) not_le)
  have key: "key = keys w0 ! i" and rest: "drop (Suc i) (keys w0) = rest"
    using Cons.prems(1) i by (metis Cons_nth_drop_Suc list.inject)+
  have upt: "[i..<length (keys w0)] = i # [Suc i..<length (keys w0)]"
    using i by (simp add: upt_conv_Cons)
  have iv: "\<not> length vs \<le> i" using i Cons.prems(3) by simp
  show ?case
  proof (cases "emits h w vs i")
    case False
    from Cons.IH[OF rest Cons.prems(2-5), of changes]
    obtain w' where IH: "getValuesLoop h vs (Suc i) rest w changes =
           (w', Some (changes @ map (emitted w vs) (filter (emits h w vs) [Suc i..<length (keys w0)])))"
        "keys w' = keys w0" "pollInterval w' = pollInterval w"
        "length (versions w') = length (keys w0)" "length (hashes w') = length (keys w0)"
        "\<forall>j. versions w' ! j = (if Suc i \<le> j \<and> j < length (keys w0) \<and> emits h w vs j
                                then versions w ! j + 1 else versions w ! j)"
      by blast
    have step: "getValuesLoop h vs i (key # rest) w changes = getValuesLoop h vs (Suc i) rest w changes"
      using False iv by (auto simp: emits_def Let_def split: option.splits)
    have vers: "\<forall>j. versions w' ! j = (if i \<le> j \<and> j < length (keys w0) \<and> emits h w vs j
                                then versions w ! j + 1 else versions w ! j)"
      using IH(6) False by (auto simp: le_less Suc_le_eq)
    show ?thesis using IH(1-5) vers step upt False by simp
  next
    case True
    then obtain v where v: "vs ! i = Some v" "h v \<noteq> hashes w ! i"
      by (auto simp: emits_def split: option.splits)
    define w2 where "w2 = w\<lparr> versions := (versions w)[i := versions w ! i + 1], hashes := (hashes w)[i := h v] \<rparr>"
    have w2v: "versions w2 ! i = versions w ! i + 1" using i Cons.prems(4) by (simp add: w2_def)
    have step: "getValuesLoop h vs i (key # rest) w changes =
        getValuesLoop h vs (Suc i) rest w2 (changes @ [emitted w vs i])"
      using v iv i Cons.prems(2,4) key by (simp add: Let_def w2_def emitted_def)
    have p2: "keys w2 = keys w0" "length (versions w2) = length (keys w0)"
        "length (hashes w2) = length (keys w0)"
      using Cons.prems by (simp_all add: w2_def)
    from Cons.IH[OF rest p2(1) Cons.prems(3) p2(2,3), of "changes @ [emitted w vs i]"]
    obtain w' where IH: "getValuesLoop h vs (Suc i) rest w2 (changes @ [emitted w vs i]) =
           (w', Some ((changes @ [emitted w vs i]) @ map (emitted w2 vs) (filter (emits h w2 vs) [Suc i..<length (keys w0)])))"
        "keys w' = keys w0" "pollInterval w' = pollInterval w2"
        "length (versions w') = length (keys w0)" "length (hashes w') = length (keys w0)"
        "\<forall>j. versions w' ! j = (if Suc i \<le> j \<and> j < length (keys w0) \<and> emits h w2 vs j
                                then versions w2 ! j + 1 else versions w2 ! j)"
      by blast
    have same_em: "\<And>j. j \<noteq> i \<Longrightarrow> emits h w2 vs j = emits h w vs j"
      by (auto simp: emits_def w2_def split: option.splits)
    have same_ch: "\<And>j. j \<noteq> i \<Longrightarrow> emitted w2 vs j = emitted w vs j"
      using Cons.prems(2) by (simp add: emitted_def w2_def)
    have same_v: "\<And>j. j \<noteq> i \<Longrightarrow> versions w2 ! j = versions w ! j"
      by (simp add: w2_def)
    have flt: "map (emitted w2 vs) (filter (emits h w2 vs) [Suc i..<length (keys w0)]) =
               map (emitted w vs) (filter (emits h w vs) [Suc i..<length (keys w0)])"
    proof -
      have "filter (emits h w2 vs) [Suc i..<length (keys w0)] = filter (emits h w vs) [Suc i..<length (keys w0)]"
        by (rule filter_cong) (auto simp: same_em)
      moreover have "map (emitted w2 vs) (filter (emits h w vs) [Suc i..<length (keys w0)]) =
            map (emitted w vs) (filter (emits h w vs) [Suc i..<length (keys w0)])"
        by (rule map_cong) (auto simp: same_ch)
      ultimately show ?thesis by simp
    qed
    have vers: "\<forall>j. versions w' ! j = (if i \<le> j \<and> j < length (keys w0) \<and> emits h w vs j
                                then versions w ! j + 1 else versions w ! j)"
    proof
      fix j
      show "versions w' ! j = (if i \<le> j \<and> j < length (keys w0) \<and> emits h w vs j
                                then versions w ! j + 1 else versions w ! j)"
      proof (cases "j = i")
        case True
        then show ?thesis using IH(6) w2v \<open>emits h w vs i\<close> i by simp
      next
        case False
        then show ?thesis using IH(6) same_em[OF False] same_v[OF False] by (auto simp: Suc_le_eq)
      qed
    qed
    have pi: "pollInterval w2 = pollInterval w" by (simp add: w2_def)
    show ?thesis using IH(1-5) vers step upt True flt pi by simp
  qed
qed

lemma filter_is_index: "i0 < n \<Longrightarrow> filter (\<lambda>j. j = i0 \<and> P) [0..<n] = (if P then [i0] else [])"
  by (induction n) (auto simp: less_Suc_eq)

lemma filter_key:
  assumes "distinct (keys w)" "i0 < length (keys w)"
  shows "filter (\<lambda>c. changeKey c = keys w ! i0) (map (emitted w vs) (filter P [0..<length (keys w)])) =
         (if P i0 then [emitted w vs i0] else [])"
proof -
  have "filter (\<lambda>c. changeKey c = keys w ! i0) (map (emitted w vs) (filter P [0..<length (keys w)])) =
        map (emitted w vs) (filter (\<lambda>j. P j \<and> keys w ! j = keys w ! i0) [0..<length (keys w)])"
    by (simp add: filter_map o_def emitted_def conj_commute)
  also have "filter (\<lambda>j. P j \<and> keys w ! j = keys w ! i0) [0..<length (keys w)] =
        filter (\<lambda>j. j = i0 \<and> P i0) [0..<length (keys w)]"
    by (rule filter_cong) (auto simp: nth_eq_iff_index_eq[OF assms(1)] assms(2))
  also have "\<dots> = (if P i0 then [i0] else [])"
    by (rule filter_is_index[OF assms(2)])
  finally show ?thesis by simp
qed

lemma getValues_spec:
  assumes wf: "wellFormed w" and d: "distinct (keys w)" and len: "length vs = length (keys w)"
    and i0: "i0 < length (keys w)"
  shows "\<exists>w' t. getValues h w (Fetched vs) = (w', t) \<and> keys w' = keys w \<and> wellFormed w' \<and>
           versionsFor (keys w ! i0) (batches t) = (if emits h w vs i0 then [versions w ! i0 + 1] else []) \<and>
           versions w' ! i0 = (if emits h w vs i0 then versions w ! i0 + 1 else versions w ! i0) \<and>
           t \<noteq> IndexPanic"
proof -
  from getValuesLoop_spec[of 0 w "keys w" w vs h "[]"] wf len
  obtain w' where L: "getValuesLoop h vs 0 (keys w) w [] =
           (w', Some (map (emitted w vs) (filter (emits h w vs) [0..<length (keys w)])))"
      "keys w' = keys w" "length (versions w') = length (keys w)" "length (hashes w') = length (keys w)"
      "\<forall>j. versions w' ! j = (if j < length (keys w) \<and> emits h w vs j
                                then versions w ! j + 1 else versions w ! j)"
    by (auto simp: wellFormed_def)
  let ?cc = "map (emitted w vs) (filter (emits h w vs) [0..<length (keys w)])"
  have g: "getValues h w (Fetched vs) = (w', if length ?cc = 0 then Quiet else Sent ?cc)"
    using L(1) by (simp add: getValues_def)
  have fk: "filter (\<lambda>c. changeKey c = keys w ! i0) ?cc = (if emits h w vs i0 then [emitted w vs i0] else [])"
    by (rule filter_key[OF d i0])
  have v: "versionsFor (keys w ! i0) (batches (if length ?cc = 0 then Quiet else Sent ?cc)) =
           (if emits h w vs i0 then [versions w ! i0 + 1] else [])"
  proof (cases "length ?cc = 0")
    case True
    then have "?cc = []" by simp
    with fk have "\<not> emits h w vs i0" by (auto split: if_splits)
    then show ?thesis using True by (simp add: versionsFor_def)
  next
    case False
    then show ?thesis using fk by (simp add: versionsFor_def emitted_def)
  qed
  show ?thesis using g v L(2-5) i0 by (auto simp: wellFormed_def)
qed

lemma monitorLoop_versions:
  assumes "distinct ks" "i0 < length ks"
  shows "keys w = ks \<Longrightarrow> wellFormed w \<Longrightarrow> \<forall>e \<in> set evs. fetchFits (length ks) e \<Longrightarrow>
     \<exists>n. versionsFor (ks ! i0) (snd (monitorLoop h w evs)) =
           map (\<lambda>j. versions w ! i0 + word_of_nat (Suc j)) [0..<n] \<and>
         versions (fst (monitorLoop h w evs)) ! i0 = versions w ! i0 + word_of_nat n"
proof (induction evs arbitrary: w)
  case Nil
  then show ?case by (simp add: versionsFor_def)
next
  case (Cons e evs)
  show ?case
  proof (cases e)
    case Done
    then show ?thesis by (simp add: versionsFor_def)
  next
    case (Tick r)
    show ?thesis
    proof (cases r)
      case (FetchError err)
      have "monitorLoop h w (e # evs) = monitorLoop h w evs"
        using Tick FetchError by (simp add: getValues_def)
      then show ?thesis using Cons.IH[OF Cons.prems(1,2)] Cons.prems(3) by simp
    next
      case (Fetched vs)
      have len: "length vs = length (keys w)" using Cons.prems(1,3) Tick Fetched by simp
      have d: "distinct (keys w)" and i: "i0 < length (keys w)" using assms Cons.prems(1) by simp_all
      from getValues_spec[OF Cons.prems(2) d len i, of h]
      obtain w' t where T: "getValues h w (Fetched vs) = (w', t)" "keys w' = keys w" "wellFormed w'"
         "versionsFor (keys w ! i0) (batches t) = (if emits h w vs i0 then [versions w ! i0 + 1] else [])"
         "versions w' ! i0 = (if emits h w vs i0 then versions w ! i0 + 1 else versions w ! i0)"
         "t \<noteq> IndexPanic" by blast
      have k': "keys w' = ks" using T(2) Cons.prems(1) by simp
      have fits: "\<forall>e \<in> set evs. fetchFits (length ks) e" using Cons.prems(3) by simp
      obtain w'' bs where M: "monitorLoop h w' evs = (w'', bs)" by (cases "monitorLoop h w' evs")
      from Cons.IH[OF k' T(3) fits] M obtain n where
        a: "versionsFor (ks ! i0) bs = map (\<lambda>j. versions w' ! i0 + word_of_nat (Suc j)) [0..<n]"
        and b: "versions w'' ! i0 = versions w' ! i0 + word_of_nat n"
        by auto
      have run: "monitorLoop h w (e # evs) = (w'', batches t @ bs)"
        using T(1,6) M Tick Fetched by (cases t) simp_all
      have vf: "versionsFor (ks ! i0) (batches t @ bs) =
                (if emits h w vs i0 then [versions w ! i0 + 1] else []) @ versionsFor (ks ! i0) bs"
        using T(4) Cons.prems(1) by (simp add: versionsFor_def)
      show ?thesis
      proof (cases "emits h w vs i0")
        case False
        have "versionsFor (ks ! i0) (snd (monitorLoop h w (e # evs))) =
                map (\<lambda>j. versions w ! i0 + word_of_nat (Suc j)) [0..<n]"
          using False run vf a T(5) by simp
        moreover have "versions (fst (monitorLoop h w (e # evs))) ! i0 = versions w ! i0 + word_of_nat n"
          using False run b T(5) by simp
        ultimately show ?thesis by blast
      next
        case True
        have c: "map (\<lambda>j. versions w ! i0 + word_of_nat (Suc j)) [0..<Suc n] =
              (versions w ! i0 + 1) # map (\<lambda>j. versions w ! i0 + 1 + word_of_nat (Suc j)) [0..<n]"
          by (simp add: map_upt_Suc add.assoc del: upt_Suc)
        have "versionsFor (ks ! i0) (snd (monitorLoop h w (e # evs))) =
                map (\<lambda>j. versions w ! i0 + word_of_nat (Suc j)) [0..<Suc n]"
          unfolding c using True run vf a T(5) by simp
        moreover have "versions (fst (monitorLoop h w (e # evs))) ! i0 = versions w ! i0 + word_of_nat (Suc n)"
          using True run b T(5) by (simp add: add.assoc)
        ultimately show ?thesis by blast
      qed
    qed
  qed
qed

text \<open>
  Claim C4, as stated, fails when a key is configured twice: each position of the key
  list has its own counter, so one tick sends two changes for the key \<open>a\<close>, both with
  version 1.
\<close>

theorem poll_duplicate_key_repeats_version:
  "redis_New True 100 [''a'', ''a''] = Inr aaWatcher \<and>
   versionsFor ''a'' (snd (monitorLoop tagDigest aaWatcher [Tick (Fetched [Some ''1'', Some ''1''])])) = [1, 1]"
  by (simp add: redis_New_def aaWatcher_def versionsFor_def getValues_def tagDigest_def Let_def)

text \<open>
  Claim C4, amended. For a watcher made by \<^verbatim>\<open>New\<close> with pairwise distinct keys, and
  any sequence of ticks and fetch results (each successful fetch answering with one
  entry per key): the changes sent for a key carry, in the order of sending, the
  versions 1, 2, ..., n as 64-bit values, each one more than the one before, and the
  counter of the key ends at n, the number of changes sent for it: it was incremented
  only when a change for the key was sent.
\<close>

theorem poll_versions_count_up:
  assumes "distinct ks" and "redis_New client interval ks = Inr w0"
    and "\<forall>e \<in> set evs. fetchFits (length ks) e" and "i < length ks"
  shows "versionsFor (ks ! i) (snd (monitorLoop h w0 evs)) =
           map word_of_nat [1..<Suc (length (versionsFor (ks ! i) (snd (monitorLoop h w0 evs))))] \<and>
         versions (fst (monitorLoop h w0 evs)) ! i =
           word_of_nat (length (versionsFor (ks ! i) (snd (monitorLoop h w0 evs))))"
proof -
  have w0: "w0 = \<lparr> keys = ks, versions = replicate (length ks) 0, hashes = replicate (length ks) [],
                   pollInterval = interval \<rparr>"
    using assms(2) by (auto simp: redis_New_def split: if_splits)
  have k: "keys w0 = ks" and wf: "wellFormed w0" and z: "versions w0 ! i = 0"
    using assms(4) by (simp_all add: w0 wellFormed_def)
  have m: "\<And>n. map word_of_nat [1..<Suc n] = map (\<lambda>j. (word_of_nat (Suc j) :: version)) [0..<n]"
  proof -
    fix n
    have "[1..<Suc n] = map Suc [0..<n]" by (simp add: map_Suc_upt del: upt_Suc)
    then show "map word_of_nat [1..<Suc n] = map (\<lambda>j. (word_of_nat (Suc j) :: version)) [0..<n]"
      by (simp add: o_def del: upt_Suc)
  qed
  from monitorLoop_versions[OF assms(1,4) k wf assms(3), of h] obtain n where
    a: "versionsFor (ks ! i) (snd (monitorLoop h w0 evs)) = map (\<lambda>j. (word_of_nat (Suc j) :: version)) [0..<n]"
    and b: "versions (fst (monitorLoop h w0 evs)) ! i = word_of_nat n"
    using z by auto
  have n: "length (versionsFor (ks ! i) (snd (monitorLoop h w0 evs))) = n"
    unfolding a by simp
  show ?thesis unfolding n m using a b by simp
qed

theorem poll_versions_count_up_witness:
  "distinct [''a'', ''b''] \<and> redis_New True 100 [''a'', ''b''] = Inr abWatcher \<and>
   list_all (fetchFits (length [''a'', ''b'']))
     [Tick (Fetched [Some ''1'', Some ''2'']), Tick (FetchError ''timeout''),
      Tick (Fetched [Some ''1'', Some ''3''])] \<and>
   (1::nat) < length [''a'', ''b''] \<and>
   versionsFor ''b'' (snd (monitorLoop tagDigest abWatcher
      [Tick (Fetched [Some ''1'', Some ''2'']), Tick (FetchError ''timeout''),
       Tick (Fetched [Some ''1'', Some ''3''])])) = [1, 2] \<and>
   versions (fst (monitorLoop tagDigest abWatcher
      [Tick (Fetched [Some ''1'', Some ''2'']), Tick (FetchError ''timeout''),
       Tick (Fetched [Some ''1'', Some ''3''])])) ! 1 = 2"
proof -
  let ?evs = "[Tick (Fetched [Some ''1'', Some ''2'']), Tick (FetchError ''timeout''),
       Tick (Fetched [Some ''1'', Some ''3''])]"
  have d: "distinct [''a'', ''b'']" by simp
  have n: "redis_New True 100 [''a'', ''b''] = Inr abWatcher"
    by (simp add: redis_New_def abWatcher_def)
  have f: "\<forall>e \<in> set ?evs. fetchFits (length [''a'', ''b'']) e" by simp
  have i: "(1::nat) < length [''a'', ''b'']" by simp
  have v: "versionsFor ''b'' (snd (monitorLoop tagDigest abWatcher ?evs)) = [1, 2]"
    by (simp add: abWatcher_def versionsFor_def getValues_def tagDigest_def Let_def)
  from poll_versions_count_up[OF d n f i, of tagDigest] show ?thesis
    using d n f i v by simp
qed


section \<open>The push watcher: properties\<close>

lemma fillChanges_spec:
  "i \<le> length pp \<Longrightarrow> length cc = length pp \<Longrightarrow>
   fillChanges pp i cc = take i cc @ map (\<lambda>p. Some (NewChange SourceConsul (Key p) (Value p) (ModifyIndex p))) (drop i pp)"
proof (induction pp i cc rule: fillChanges.induct)
  case (1 pp i cc)
  show ?case
  proof (cases "i < length pp")
    case True
    let ?c = "Some (NewChange SourceConsul (Key (pp ! i)) (Value (pp ! i)) (ModifyIndex (pp ! i)))"
    have "fillChanges pp i cc = fillChanges pp (Suc i) (cc[i := ?c])"
      using True by (subst fillChanges.simps) simp
    also have "\<dots> = take (Suc i) (cc[i := ?c]) @ map (\<lambda>p. Some (NewChange SourceConsul (Key p) (Value p) (ModifyIndex p))) (drop (Suc i) pp)"
      using True 1 by simp
    also have "take (Suc i) (cc[i := ?c]) = take i cc @ [?c]"
      using True 1(3) by (simp add: take_Suc_conv_app_nth)
    finally show ?thesis using True by (simp add: Cons_nth_drop_Suc[symmetric])
  next
    case False
    then show ?thesis using 1(2,3) by (subst fillChanges.simps) simp
  qed
qed

text \<open>
  Claim C6. For a notification that delivers the key-value pairs \<open>pp\<close>, the handler of
  a prefix plan sends one batch with exactly one change per delivered pair, in the
  delivered order, each with the Consul source, the pair's key, its current value and
  its \<open>ModifyIndex\<close> as version. The batch depends on the delivered pairs alone, so a
  pair whose value has not changed since the notification before is sent again.
\<close>

theorem prefix_handler_emits_every_pair:
  "keyPrefixHandler idx (PairsData pp) =
     Some (map (\<lambda>p. Some (NewChange SourceConsul (Key p) (Value p) (ModifyIndex p))) pp)"
  by (simp add: keyPrefixHandler_def fillChanges_spec)


section \<open>The monitor: properties\<close>

lemma applyChange_append:
  "applyChange fset m (xs @ ys) st = applyChange fset m ys (applyChange fset m xs st)"
  by (induction xs arbitrary: st) (auto split: option.splits prod.splits)

text \<open>
  Claim C7. Dispatch treats every change of a batch on its own. A change whose source
  or key is not in the routing table is dropped alone: the batch has the same effect
  as the batch without it. A change for which \<^verbatim>\<open>Field.Set\<close> returns an error is
  dropped alone: the changes after it are applied all the same, from the store that
  call left. \<^verbatim>\<open>applyChange\<close> returns in every case; it has no way to abort.
\<close>

theorem dispatch_isolates_changes:
  "(route m c = None \<longrightarrow>
      applyChange fset m (xs @ c # ys) st = applyChange fset m (xs @ ys) st) \<and>
   (\<forall>fld err st'.
      route m c = Some fld \<and>
      fset fld (changeValue c) (changeVersion c) (applyChange fset m xs st) = (Some err, st') \<longrightarrow>
      applyChange fset m (xs @ c # ys) st = applyChange fset m ys st')"
  by (auto simp: applyChange_append route_def routeOf_def split: option.splits prod.splits)

theorem dispatch_isolates_changes_witness:
  "route exampleRoutes (NewChange SourceConsul ''cfg/unknown'' ''5'' 7) = None \<and>
   applyChange cellSet exampleRoutes
      [NewChange SourceConsul ''cfg/unknown'' ''5'' 7, NewChange SourceConsul ''cfg/x'' ''9'' 8] Map.empty =
     [9 \<mapsto> (''9'', 8)] \<and>
   route exampleRoutes (NewChange SourceConsul ''cfg/y'' ''NaN'' 4) = Some otherField \<and>
   cellSet otherField ''NaN'' 4 Map.empty = (Some ''invalid syntax'', Map.empty) \<and>
   applyChange cellSet exampleRoutes
      [NewChange SourceConsul ''cfg/y'' ''NaN'' 4, NewChange SourceConsul ''cfg/x'' ''9'' 8] Map.empty =
     [9 \<mapsto> (''9'', 8)]"
proof -
  let ?u = "NewChange SourceConsul ''cfg/unknown'' ''5'' 7"
  let ?b = "NewChange SourceConsul ''cfg/y'' ''NaN'' 4"
  let ?x = "NewChange SourceConsul ''cfg/x'' ''9'' 8"
  have r1: "route exampleRoutes ?u = None"
    by (simp add: route_def routeOf_def exampleRoutes_def)
  have r2: "route exampleRoutes ?b = Some otherField"
    by (simp add: route_def routeOf_def exampleRoutes_def)
  have s2: "cellSet otherField ''NaN'' 4 Map.empty = (Some ''invalid syntax'', Map.empty)"
    by (simp add: cellSet_def)
  have v: "applyChange cellSet exampleRoutes [?x] Map.empty = [9 \<mapsto> (''9'', 8)]"
    by (simp add: exampleRoutes_def cellSet_def cfgField_def)
  have a1: "applyChange cellSet exampleRoutes [?u, ?x] Map.empty =
            applyChange cellSet exampleRoutes [?x] Map.empty"
    using dispatch_isolates_changes[of exampleRoutes ?u cellSet "[]" "[?x]" Map.empty] r1
    by (simp del: applyChange.simps(2))
  have a2: "applyChange cellSet exampleRoutes [?b, ?x] Map.empty =
            applyChange cellSet exampleRoutes [?x] Map.empty"
    using dispatch_isolates_changes[of exampleRoutes ?b cellSet "[]" "[?x]" Map.empty] r2 s2
    by (simp del: applyChange.simps(2))
  show ?thesis using r1 r2 s2 v a1 a2 by simp
qed

lemma routeOf_upd:
  "routeOf (m(s \<mapsto> inner)) s' k' = (if s' = s then inner k' else routeOf m s' k')"
  by (auto simp: routeOf_def)

lemma addSources_Inr:
  "addSources f srcs m = Inr m' \<Longrightarrow> distinct (map fst srcs) \<Longrightarrow>
   (\<forall>(s, k) \<in> set srcs. s \<noteq> SourceSeed \<longrightarrow> routeOf m s k = None) \<and>
   (\<forall>s k. routeOf m' s k = (if s \<noteq> SourceSeed \<and> (s, k) \<in> set srcs then Some f else routeOf m s k))"
proof (induction srcs arbitrary: m)
  case Nil
  then show ?case by simp
next
  case (Cons p srcs)
  obtain s0 k0 where p: "p = (s0, k0)" by (cases p)
  have d: "distinct (map fst srcs)" and notin: "\<forall>k. (s0, k) \<notin> set srcs"
    using Cons.prems(2) p by (auto simp: image_iff)
  show ?case
  proof (cases "s0 = SourceSeed")
    case True
    then have "addSources f srcs m = Inr m'" using Cons.prems(1) p by simp
    from Cons.IH[OF this d] show ?thesis using True p by auto
  next
    case False
    show ?thesis
    proof (cases "m s0")
      case None
      then have a: "addSources f srcs (m(s0 \<mapsto> [k0 \<mapsto> f])) = Inr m'"
        using Cons.prems(1) p False by simp
      have r0: "routeOf m s0 k0 = None" using None by (simp add: routeOf_def)
      from Cons.IH[OF a d] notin r0 show ?thesis
        using p False by (auto simp: routeOf_upd routeOf_def None split: if_splits)
    next
      case (Some inner)
      then have n: "inner k0 = None" using Cons.prems(1) p False by (auto split: option.splits)
      then have a: "addSources f srcs (m(s0 \<mapsto> inner(k0 \<mapsto> f))) = Inr m'"
        using Cons.prems(1) p False Some by simp
      have r0: "routeOf m s0 k0 = None" using Some n by (simp add: routeOf_def)
      from Cons.IH[OF a d] notin r0 show ?thesis
        using p False by (auto simp: routeOf_upd routeOf_def Some n split: if_splits)
    qed
  qed
qed

lemma addSources_Inl:
  "addSources f srcs m = Inl e \<Longrightarrow> distinct (map fst srcs) \<Longrightarrow>
   \<exists>s k. (s, k) \<in> set srcs \<and> s \<noteq> SourceSeed \<and> routeOf m s k \<noteq> None \<and> e = duplicateKeyError s k"
proof (induction srcs arbitrary: m)
  case Nil
  then show ?case by simp
next
  case (Cons p srcs)
  obtain s0 k0 where p: "p = (s0, k0)" by (cases p)
  have d: "distinct (map fst srcs)" and notin: "\<forall>k. (s0, k) \<notin> set srcs"
    using Cons.prems(2) p by (auto simp: image_iff)
  show ?case
  proof (cases "s0 = SourceSeed")
    case True
    then have "addSources f srcs m = Inl e" using Cons.prems(1) p by simp
    from Cons.IH[OF this d] show ?thesis by auto
  next
    case False
    show ?thesis
    proof (cases "m s0")
      case None
      then have a: "addSources f srcs (m(s0 \<mapsto> [k0 \<mapsto> f])) = Inl e"
        using Cons.prems(1) p False by simp
      from Cons.IH[OF a d] notin show ?thesis
        by (auto simp: routeOf_upd routeOf_def None split: if_splits)
    next
      case (Some inner)
      show ?thesis
      proof (cases "inner k0")
        case None
        then have a: "addSources f srcs (m(s0 \<mapsto> inner(k0 \<mapsto> f))) = Inl e"
          using Cons.prems(1) p False Some by simp
        from Cons.IH[OF a d] notin show ?thesis
          by (auto simp: routeOf_upd routeOf_def \<open>m s0 = Some inner\<close> None split: if_splits)
      next
        case (Some g)
        then have "e = duplicateKeyError s0 k0" and "routeOf m s0 k0 \<noteq> None"
          using Cons.prems(1) p False \<open>m s0 = Some inner\<close>
          by (auto simp: duplicateKeyError_def routeOf_def)
        then show ?thesis using p False by auto
      qed
    qed
  qed
qed

lemma in_claimed: "(s, k) \<in> set (claimed f) \<longleftrightarrow> s \<noteq> SourceSeed \<and> (s, k) \<in> set (Sources f)"
  by (auto simp: claimed_def)

lemma generateMapFrom_Inr:
  "generateMapFrom ff m = Inr m' \<Longrightarrow> \<forall>f \<in> set ff. distinct (map fst (Sources f)) \<Longrightarrow>
   \<not> duplicateClaim ff \<and> (\<forall>f \<in> set ff. set (claimed f) \<inter> taken m = {}) \<and>
   (\<forall>s k f. routeOf m' s k = Some f \<longleftrightarrow>
      (f \<in> set ff \<and> (s, k) \<in> set (claimed f)) \<or> (routeOf m s k = Some f \<and> (\<forall>g \<in> set ff. (s, k) \<notin> set (claimed g))))"
proof (induction ff arbitrary: m)
  case Nil
  then show ?case by simp
next
  case (Cons f ff)
  from Cons.prems(1) obtain m1 where a: "addSources f (Sources f) m = Inr m1"
    and g: "generateMapFrom ff m1 = Inr m'"
    by (auto split: sum.splits)
  have df: "distinct (map fst (Sources f))" and dff: "\<forall>f \<in> set ff. distinct (map fst (Sources f))"
    using Cons.prems(2) by auto
  note A = addSources_Inr[OF a df]
  note IH = Cons.IH[OF g dff]
  have tk: "taken m1 = taken m \<union> set (claimed f)"
    using A by (auto simp: taken_def in_claimed split: if_splits)
  have free: "set (claimed f) \<inter> taken m = {}"
    using A by (fastforce simp: taken_def in_claimed)
  have disj: "\<forall>g \<in> set ff. set (claimed g) \<inter> (taken m \<union> set (claimed f)) = {}"
    using IH tk by auto
  have nodup: "\<not> duplicateClaim (f # ff)"
    using IH disj by auto
  have r1: "\<And>s k. routeOf m1 s k = (if (s, k) \<in> set (claimed f) then Some f else routeOf m s k)"
    using A by (auto simp: in_claimed)
  have route: "\<forall>s k f'. routeOf m' s k = Some f' \<longleftrightarrow>
      (f' \<in> set (f # ff) \<and> (s, k) \<in> set (claimed f')) \<or>
      (routeOf m s k = Some f' \<and> (\<forall>g \<in> set (f # ff). (s, k) \<notin> set (claimed g)))"
  proof (intro allI)
    fix s k f'
    have "routeOf m' s k = Some f' \<longleftrightarrow>
      (f' \<in> set ff \<and> (s, k) \<in> set (claimed f')) \<or>
      (routeOf m1 s k = Some f' \<and> (\<forall>g \<in> set ff. (s, k) \<notin> set (claimed g)))"
      using IH by blast
    then show "routeOf m' s k = Some f' \<longleftrightarrow>
      (f' \<in> set (f # ff) \<and> (s, k) \<in> set (claimed f')) \<or>
      (routeOf m s k = Some f' \<and> (\<forall>g \<in> set (f # ff). (s, k) \<notin> set (claimed g)))"
      using disj by (auto simp: r1 split: if_splits)
  qed
  show ?case using nodup free disj route by auto
qed

lemma generateMapFrom_Inl:
  "generateMapFrom ff m = Inl e \<Longrightarrow> \<forall>f \<in> set ff. distinct (map fst (Sources f)) \<Longrightarrow>
   \<exists>s k. e = duplicateKeyError s k \<and> (\<exists>f \<in> set ff. (s, k) \<in> set (claimed f)) \<and>
     (duplicateClaim ff \<or> (\<exists>f \<in> set ff. set (claimed f) \<inter> taken m \<noteq> {}))"
proof (induction ff arbitrary: m)
  case Nil
  then show ?case by simp
next
  case (Cons f ff)
  have df: "distinct (map fst (Sources f))" and dff: "\<forall>f \<in> set ff. distinct (map fst (Sources f))"
    using Cons.prems(2) by auto
  show ?case
  proof (cases "addSources f (Sources f) m")
    case (Inl e')
    then have "e' = e" using Cons.prems(1) by simp
    with addSources_Inl[OF Inl df] obtain s k where
      "(s, k) \<in> set (claimed f)" "(s, k) \<in> taken m" "e = duplicateKeyError s k"
      by (auto simp: taken_def in_claimed)
    then have "set (claimed f) \<inter> taken m \<noteq> {}" by blast
    then show ?thesis using \<open>e = duplicateKeyError s k\<close> \<open>(s, k) \<in> set (claimed f)\<close>
      by (intro exI[of _ s] exI[of _ k]) auto
  next
    case (Inr m1)
    then have g: "generateMapFrom ff m1 = Inl e" using Cons.prems(1) by simp
    note A = addSources_Inr[OF Inr df]
    have tk: "taken m1 = taken m \<union> set (claimed f)"
      using A by (auto simp: taken_def in_claimed split: if_splits)
    from Cons.IH[OF g dff] obtain s k where e: "e = duplicateKeyError s k"
      and cl: "\<exists>f \<in> set ff. (s, k) \<in> set (claimed f)"
      and c: "duplicateClaim ff \<or> (\<exists>g \<in> set ff. set (claimed g) \<inter> taken m1 \<noteq> {})" by blast
    have "duplicateClaim (f # ff) \<or> (\<exists>g \<in> set (f # ff). set (claimed g) \<inter> taken m \<noteq> {})"
      using c tk by auto
    then show ?thesis using e cl by auto
  qed
qed

lemma taken_empty: "taken Map.empty = {}"
  by (simp add: taken_def routeOf_def)

text \<open>
  Claim C8. Each field's \<open>Sources\<close> being a map (one key per source),
  \<^verbatim>\<open>generateMap\<close> fails exactly when two fields of the list claim the same pair of
  a source other than Seed and a key, and then with the duplicate-key error for such a
  pair; \<^verbatim>\<open>New\<close> returns that error and no monitor, so that no watcher can be started
  through it. Otherwise the table routes a source and key to a field exactly when that
  field is in the list and claims the pair; being a map per source, it has at most one
  field for a key, and it has no entry for the Seed source.
\<close>

theorem routing_table_unique:
  assumes "\<forall>f \<in> set ff. distinct (map fst (Sources f))"
  shows "if duplicateClaim ff
         then \<exists>source key. (\<exists>f \<in> set ff. (source, key) \<in> set (claimed f)) \<and>
                generateMap ff = Inl (duplicateKeyError source key) \<and>
                (watchers \<noteq> [] \<longrightarrow>
                   monitor_New (Some \<lparr> Fields = ff \<rparr>) watchers = Inl (duplicateKeyError source key))
         else \<exists>m. generateMap ff = Inr m \<and>
                (watchers \<noteq> [] \<longrightarrow>
                   monitor_New (Some \<lparr> Fields = ff \<rparr>) watchers = Inr \<lparr> cfg = \<lparr> Fields = ff \<rparr>, mp = m, ww = watchers \<rparr>) \<and>
                (\<forall>key. routeOf m SourceSeed key = None) \<and>
                (\<forall>source key f. routeOf m source key = Some f \<longleftrightarrow> f \<in> set ff \<and> (source, key) \<in> set (claimed f))"
proof (cases "generateMap ff")
  case (Inl e)
  then have "generateMapFrom ff Map.empty = Inl e" by (simp add: generateMap_def)
  from generateMapFrom_Inl[OF this assms] obtain s k where
    "e = duplicateKeyError s k" "\<exists>f \<in> set ff. (s, k) \<in> set (claimed f)" "duplicateClaim ff"
    by (auto simp: taken_empty)
  then show ?thesis using Inl by (auto simp: monitor_New_def)
next
  case (Inr m)
  then have "generateMapFrom ff Map.empty = Inr m" by (simp add: generateMap_def)
  from generateMapFrom_Inr[OF this assms]
  have nd: "\<not> duplicateClaim ff"
    and r: "\<forall>s k f. routeOf m s k = Some f \<longleftrightarrow> (f \<in> set ff \<and> (s, k) \<in> set (claimed f))"
    by (auto simp: routeOf_def)
  have seed: "\<forall>key. routeOf m SourceSeed key = None"
  proof
    fix key
    show "routeOf m SourceSeed key = None"
      using r[rule_format, of SourceSeed key] by (cases "routeOf m SourceSeed key") (auto simp: in_claimed)
  qed
  show ?thesis using nd r seed Inr by (auto simp: monitor_New_def)
qed

theorem routing_table_unique_witness:
  "list_all (\<lambda>f. distinct (map fst (Sources f))) [cfgField, otherField, clashField] \<and>
   duplicateClaim [cfgField, otherField, clashField] \<and>
   generateMap [cfgField, otherField, clashField] = Inl (duplicateKeyError SourceConsul ''cfg/x'') \<and>
   monitor_New (Some \<lparr> Fields = [cfgField, otherField, clashField] \<rparr>) [()] =
     Inl (duplicateKeyError SourceConsul ''cfg/x'') \<and>
   list_all (\<lambda>f. distinct (map fst (Sources f))) [cfgField, otherField] \<and>
   \<not> duplicateClaim [cfgField, otherField] \<and>
   generateMap [cfgField, otherField] = Inr exampleRoutes"
proof -
  have d1: "\<forall>f \<in> set [cfgField, otherField, clashField]. distinct (map fst (Sources f))"
    by (simp add: cfgField_def otherField_def clashField_def)
  have d2: "\<forall>f \<in> set [cfgField, otherField]. distinct (map fst (Sources f))"
    by (simp add: cfgField_def otherField_def)
  have c1: "duplicateClaim [cfgField, otherField, clashField]"
    by (simp add: claimed_def cfgField_def otherField_def clashField_def)
  have c2: "\<not> duplicateClaim [cfgField, otherField]"
    by (simp add: claimed_def cfgField_def otherField_def)
  have g1: "generateMap [cfgField, otherField, clashField] = Inl (duplicateKeyError SourceConsul ''cfg/x'')"
    by (simp add: generateMap_def duplicateKeyError_def cfgField_def otherField_def clashField_def)
  have g2: "generateMap [cfgField, otherField] = Inr exampleRoutes"
    by (simp add: generateMap_def exampleRoutes_def)
       (auto simp: cfgField_def otherField_def fun_eq_iff)
  have mn: "monitor_New (Some \<lparr> Fields = [cfgField, otherField, clashField] \<rparr>) [()] =
     Inl (duplicateKeyError SourceConsul ''cfg/x'')"
    by (simp add: monitor_New_def g1)
  from routing_table_unique[OF d1, of "[()]"] routing_table_unique[OF d2, of "[()]"] show ?thesis
    using d1 d2 c1 c2 g1 g2 mn by (simp del: duplicateClaim.simps)
qed


section \<open>The seeder: \<open>Seed\<close> runs its statements in program order\<close>

lemma run_append:
  "run w (xs @ ys) st = (case run w xs st of (Next, st') \<Rightarrow> run w ys st' | (c, st') \<Rightarrow> (c, st'))"
  by (induction xs arbitrary: st) (auto split: prod.splits ctl.splits)

lemma applySet_not_Skip: "fst (applySet w f val ver st) \<noteq> Skip"
  by (auto simp: applySet_def split: prod.splits option.splits)

lemma exec_not_Skip: "fst (exec w a st) \<noteq> Skip"
  by (cases a) (auto simp: applySet_not_Skip split: option.splits)

lemma run_not_Skip: "fst (run w as st) \<noteq> Skip"
proof (induction as arbitrary: st)
  case Nil
  then show ?case by simp
next
  case (Cons a as)
  show ?case using exec_not_Skip[of w a st] Cons.IH
    by (auto split: prod.splits ctl.splits)
qed

lemma run_single: "run w [a] st = exec w a st"
proof (cases "exec w a st")
  case (Pair c st')
  then show ?thesis by (cases c) simp_all
qed

lemma run_Cons_Visit: "run w (Visit f # as) st = run w as (setSeeded f False st)"
  by simp

lemma seedFromSeed_run: "seedFromSeed w f = run w (seedPart f)"
  by (rule ext) (simp add: seedFromSeed_def seedPart_def run_single del: run.simps(2) split: option.splits)

lemma seedFromEnv_run: "seedFromEnv w f = run w (envPart w f)"
  by (rule ext) (simp add: seedFromEnv_def envPart_def run_single del: run.simps(2) split: option.splits)

lemma registerFlag_run: "registerFlag w f = run w (flagPart f)"
  by (rule ext) (simp add: registerFlag_def flagPart_def run_single del: run.simps(2) split: option.splits)

lemma seedFromFile_run: "seedFromFile w f = run w (filePart w f)"
  by (rule ext) (simp add: seedFromFile_def filePart_def run_single del: run.simps(2) split: option.splits sum.splits)

lemma seedFromGetter_run:
  "seedFromGetter w gg source required f st =
     (case getterPart gg source required f of
        (acts, goesOn) \<Rightarrow> if goesOn then run w acts st else (Skip, st))"
  by (simp add: seedFromGetter_def getterPart_def run_single del: run.simps(2) split: option.splits prod.splits)

lemma getterPart_stops: "getterPart gg source required f = (acts, False) \<Longrightarrow> acts = []"
  by (auto simp: getterPart_def split: option.splits prod.splits)

lemma stores_run:
  "agrees (andThen (seedFromConsul w gg f) (seedFromRedis w gg f) st) (run w (storePart gg f) st)"
proof -
  obtain a1 g1 where c: "getterPart gg SourceConsul ''consul getter required'' f = (a1, g1)"
    by (cases "getterPart gg SourceConsul ''consul getter required'' f")
  obtain a2 g2 where r: "getterPart gg SourceRedis ''redis getter required'' f = (a2, g2)"
    by (cases "getterPart gg SourceRedis ''redis getter required'' f")
  show ?thesis
  proof (cases g1)
    case False
    then have "a1 = []" using c getterPart_stops[of gg SourceConsul _ f a1] by simp
    then show ?thesis using c False
      by (simp add: andThen_def seedFromConsul_def seedFromGetter_run storePart_def agrees_def)
  next
    case True
    obtain c1 st1 where r1: "run w a1 st = (c1, st1)" by (cases "run w a1 st")
    have ns: "c1 \<noteq> Skip" using run_not_Skip[of w a1 st] r1 by simp
    show ?thesis
    proof (cases c1)
      case Next
      obtain c2 st2 where r2: "run w a2 st1 = (c2, st2)" by (cases "run w a2 st1")
      have ns2: "c2 \<noteq> Skip" using run_not_Skip[of w a2 st1] r2 by simp
      have e: "g2 = False \<Longrightarrow> a2 = []" using r getterPart_stops[of gg SourceRedis _ f a2] by simp
      show ?thesis using c r True r1 Next r2 ns2 e
        by (cases c2; cases g2)
           (auto simp: andThen_def seedFromConsul_def seedFromRedis_def seedFromGetter_run
                 storePart_def agrees_def run_append)
    next
      case Skip
      then show ?thesis using ns by simp
    next
      case (Stop fl)
      then show ?thesis using c True r1
        by (simp add: andThen_def seedFromConsul_def seedFromGetter_run storePart_def agrees_def run_append)
    qed
  qed
qed

lemma andThen_agrees:
  assumes "\<And>st1. agrees (q st1) (run w ys st1)"
  shows "agrees (andThen (run w xs) q st) (run w (xs @ ys) st)"
proof (cases "run w xs st")
  case (Pair c st1)
  show ?thesis
  proof (cases c)
    case Next
    then show ?thesis using Pair assms by (simp add: andThen_def run_append)
  next
    case Skip
    then show ?thesis using run_not_Skip[of w xs st] Pair by simp
  next
    case (Stop fl)
    then show ?thesis using Pair by (simp add: andThen_def run_append agrees_def)
  qed
qed

lemma seedField_run: "agrees (seedField w gg f st) (run w (fieldPlan w gg f) st)"
  unfolding seedField_def fieldPlan_def bodyPlan_def run_Cons_Visit
    seedFromSeed_run seedFromEnv_run registerFlag_run seedFromFile_run
  by (intro andThen_agrees stores_run)

lemma seedFields_run: "seedFields w gg ff st = run w (concat (map (fieldPlan w gg) ff)) st"
proof (induction ff arbitrary: st)
  case Nil
  then show ?case by simp
next
  case (Cons f ff)
  obtain c st1 where r: "seedField w gg f st = (c, st1)" by (cases "seedField w gg f st")
  show ?case
  proof (cases c)
    case (Stop fl)
    then have "run w (fieldPlan w gg f) st = (Stop fl, st1)"
      using seedField_run[of w gg f st] r by (simp add: agrees_def)
    then show ?thesis using r Stop by (simp add: run_append)
  next
    case Next
    then have "run w (fieldPlan w gg f) st = (Next, st1)"
      using seedField_run[of w gg f st] r by (simp add: agrees_def)
    then show ?thesis using r Next Cons.IH by (simp add: run_append)
  next
    case Skip
    then have "run w (fieldPlan w gg f) st = (Next, st1)"
      using seedField_run[of w gg f st] r by (simp add: agrees_def)
    then show ?thesis using r Skip Cons.IH by (simp add: run_append)
  qed
qed

lemma applyFlags_run: "applyFlags w fis st = run w (concat (map (flagApply w) fis)) st"
proof (induction fis arbitrary: st)
  case Nil
  then show ?case by simp
next
  case (Cons kf fis)
  obtain key f where kf: "kf = (key, f)" by (cases kf)
  show ?case
  proof (cases "flagActual w key")
    case None
    then show ?thesis using Cons.IH kf by (simp add: flagApply_def)
  next
    case (Some val)
    obtain c st1 where a: "applySet w f val 0 st = (c, st1)" by (cases "applySet w f val 0 st")
    show ?thesis using Some kf a Cons.IH
      by (cases c) (simp_all add: flagApply_def)
  qed
qed

lemma run_flagInfos:
  "run w acts st = (Next, st') \<Longrightarrow> flagInfos st' = flagInfos st @ concat (map definedBy acts)"
proof (induction acts arbitrary: st)
  case Nil
  then show ?case by simp
next
  case (Cons a acts)
  obtain c st1 where e: "exec w a st = (c, st1)" by (cases "exec w a st")
  have c: "c = Next" using Cons.prems e by (cases c) auto
  have r: "run w acts st1 = (Next, st')" using Cons.prems e c by simp
  have "flagInfos st1 = flagInfos st @ definedBy a"
    using e c by (cases a) (auto simp: setSeeded_def applySet_def split: option.splits prod.splits)
  then show ?case using Cons.IH[OF r] by simp
qed

lemma definedBy_parts:
  "concat (map definedBy (seedPart f)) = []"
  "concat (map definedBy (envPart w f)) = []"
  "concat (map definedBy (filePart w f)) = []"
  "concat (map definedBy (fst (getterPart gg source required f))) = []"
  by (auto simp: seedPart_def envPart_def filePart_def getterPart_def
        split: option.splits sum.splits prod.splits)

lemma definedBy_storePart: "concat (map definedBy (storePart gg f)) = []"
  using definedBy_parts(4)[of gg SourceConsul "''consul getter required''" f]
        definedBy_parts(4)[of gg SourceRedis "''redis getter required''" f]
  by (cases "getterPart gg SourceConsul ''consul getter required'' f") (auto simp: storePart_def)

lemma definedBy_fieldPlan:
  "concat (map definedBy (fieldPlan w gg f)) =
     (case map_of (Sources f) SourceFlag of None \<Rightarrow> [] | Some key \<Rightarrow> [(key, f)])"
  by (simp add: fieldPlan_def bodyPlan_def definedBy_parts definedBy_storePart flagPart_def
        split: option.splits)

lemma definedBy_loop: "concat (map definedBy (concat (map (fieldPlan w gg) ff))) = flagKeys ff"
  by (induction ff) (simp_all add: flagKeys_def definedBy_fieldPlan)

lemma initState_sel [simp]:
  "store (initState s0) = s0" "seedMap (initState s0) = []" "flagInfos (initState s0) = []"
  by (simp_all add: initState_def)

lemma seedLoops_run:
  "seedLoops w s c s0 = run w (seedPlan w (getters s) (Fields c)) (initState s0)"
proof -
  let ?loop = "concat (map (fieldPlan w (getters s)) (Fields c))"
  obtain c1 st1 where r: "run w ?loop (initState s0) = (c1, st1)"
    by (cases "run w ?loop (initState s0)")
  show ?thesis
  proof (cases c1)
    case Next
    have "flagInfos st1 = flagKeys (Fields c)"
      using run_flagInfos[OF r[unfolded Next]] by (simp add: definedBy_loop)
    then show ?thesis using r Next
      by (simp add: seedLoops_def seedFields_run seedPlan_def run_append applyFlags_run)
  next
    case Skip
    then show ?thesis using run_not_Skip[of w ?loop "initState s0"] r by simp
  next
    case (Stop fl)
    then show ?thesis using r
      by (simp add: seedLoops_def seedFields_run seedPlan_def run_append)
  qed
qed

lemma Seed_run:
  "Seed w s c s0 =
     (case run w (seedPlan w (getters s) (Fields c)) (initState s0) of
        (Stop fl, st) \<Rightarrow> (Some fl, store st)
      | (c2, st) \<Rightarrow>
          (if length (unseededReport w (seedMap st)) > 0
           then (Some (Error (unseededReport w (seedMap st))), store st) else (None, store st)))"
  by (simp add: Seed_def seedLoops_run Let_def split: prod.splits ctl.splits)


section \<open>The seeder: the calls of \<open>Field.Set\<close>\<close>

lemma exec_traced:
  "exec (traced w) a (lift st lg) =
     (fst (exec w a st), lift (snd (exec w a st)) (lg @ callOf w a st))"
  by (cases a)
     (auto simp: traced_def lift_def applySet_def tracedSet_def setSeeded_def split: prod.splits option.splits)

lemma run_traced:
  "run (traced w) acts (lift st lg) =
     (fst (run w acts st), lift (snd (run w acts st)) (lg @ callsOf w acts st))"
proof (induction acts arbitrary: st lg)
  case Nil
  then show ?case by simp
next
  case (Cons a acts)
  obtain c st1 where e: "exec w a st = (c, st1)" by (cases "exec w a st")
  show ?case
    using exec_traced[of w a st lg] e Cons.IH
    by (cases c) (simp_all)
qed

lemma traced_sel [simp]:
  "lookupEnv (traced w) = lookupEnv w" "readFile (traced w) = readFile w"
  "flagVar (traced w) = flagVar w" "flagActual (traced w) = flagActual w"
  "rangeOrder (traced w) = rangeOrder w" "fieldSet (traced w) = tracedSet (fieldSet w)"
  by (simp_all add: traced_def)

lemma plan_traced: "seedPlan (traced w) gg ff = seedPlan w gg ff"
proof -
  have "envPart (traced w) = envPart w" "filePart (traced w) = filePart w"
       "flagApply (traced w) = flagApply w"
    by (rule ext, simp add: envPart_def filePart_def flagApply_def cong: option.case_cong sum.case_cong)+
  then have "fieldPlan (traced w) gg = fieldPlan w gg" "flagApply (traced w) = flagApply w"
    by (auto simp: fieldPlan_def bodyPlan_def)
  then show ?thesis by (simp add: seedPlan_def)
qed

lemma lift_init: "initState (s0, []) = lift (initState s0) []"
  by (simp add: initState_def lift_def)

lemma lift_sel [simp]:
  "store (lift st lg) = (store st, lg)" "seedMap (lift st lg) = seedMap st"
  "flagInfos (lift st lg) = flagInfos st"
  by (simp_all add: lift_def)

lemma report_traced [simp]: "unseededReport (traced w) sm = unseededReport w sm"
  by (simp add: unseededReport_def)

lemma SeedTrace_eq:
  "SeedTrace w s c s0 =
     (fst (Seed w s c s0), snd (Seed w s c s0),
      callsOf w (seedPlan w (getters s) (Fields c)) (initState s0))"
proof -
  let ?plan = "seedPlan w (getters s) (Fields c)"
  obtain c1 st1 where r: "run w ?plan (initState s0) = (c1, st1)"
    by (cases "run w ?plan (initState s0)")
  have t: "run (traced w) ?plan (initState (s0, [])) = (c1, lift st1 (callsOf w ?plan (initState s0)))"
    using run_traced[of w ?plan "initState s0" "[]"] r by (simp add: lift_init)
  show ?thesis
    unfolding SeedTrace_def Seed_run plan_traced t r
    by (cases c1) simp_all
qed

lemma callsOf_store:
  "store (snd (run w acts st)) = foldl (applyCall (fieldSet w)) (store st) (callsOf w acts st)"
proof (induction acts arbitrary: st)
  case Nil
  then show ?case by simp
next
  case (Cons a acts)
  obtain c st1 where e: "exec w a st = (c, st1)" by (cases "exec w a st")
  have s1: "store st1 = foldl (applyCall (fieldSet w)) (store st) (callOf w a st)"
    using e by (cases a) (auto simp: applyCall_def applySet_def setSeeded_def split: option.splits prod.splits)
  show ?case
  proof (cases c)
    case Next
    then show ?thesis using e s1 Cons.IH[of st1] by simp
  next
    case Skip
    then show ?thesis using e s1 by simp
  next
    case (Stop fl)
    then show ?thesis using e s1 by simp
  qed
qed

lemma callsOf_errors:
  "(\<forall>x \<in> set (butlast (callsOf w acts st)). callError x = None) \<and>
   (\<forall>x \<in> set (callsOf w acts st). \<forall>e. callError x = Some e \<longrightarrow>
        fst (run w acts st) = Stop (Error e) \<and> x = last (callsOf w acts st))"
proof (induction acts arbitrary: st)
  case Nil
  then show ?case by simp
next
  case (Cons a acts)
  obtain c st1 where e: "exec w a st = (c, st1)" by (cases "exec w a st")
  show ?case
  proof (cases a)
    case (SetValue f val ver)
    obtain er s' where fs: "fieldSet w f val ver (store st) = (er, s')"
      by (cases "fieldSet w f val ver (store st)")
    show ?thesis
    proof (cases er)
      case None
      then have ex: "exec w a st = (Next, setSeeded f True (st\<lparr>store := s'\<rparr>))"
        using SetValue fs by (simp add: applySet_def)
      let ?st1 = "setSeeded f True (st\<lparr>store := s'\<rparr>)"
      have co: "callsOf w (a # acts) st = (f, val, ver, None) # callsOf w acts ?st1"
        using SetValue fs None ex by simp
      have ru: "run w (a # acts) st = run w acts ?st1" using ex by simp
      show ?thesis unfolding co ru using Cons.IH[of ?st1]
        by (auto simp: callError_def dest: in_set_butlastD)
    next
      case (Some er')
      then have ex: "exec w a st = (Stop (Error er'), st\<lparr>store := s'\<rparr>)"
        using SetValue fs by (simp add: applySet_def)
      have co: "callsOf w (a # acts) st = [(f, val, ver, Some er')]"
        using SetValue fs Some ex by simp
      show ?thesis unfolding co using ex by (simp add: callError_def)
    qed
  next
    case (Visit f)
    then show ?thesis using Cons.IH[of "setSeeded f False st"] by simp
  next
    case (DefineFlag key f)
    then show ?thesis using Cons.IH[of "st\<lparr>flagInfos := flagInfos st @ [(key, f)]\<rparr>"]
      by (cases "flagVar w (map fst (flagInfos st)) key") simp_all
  next
    case (Fail msg)
    then show ?thesis by simp
  qed
qed

lemma callsOf_Next:
  "run w acts st = (Next, st') \<Longrightarrow> map callField (callsOf w acts st) = concat (map setOn acts)"
proof (induction acts arbitrary: st)
  case Nil
  then show ?case by simp
next
  case (Cons a acts)
  obtain c st1 where e: "exec w a st = (c, st1)" by (cases "exec w a st")
  have c: "c = Next" using Cons.prems e by (cases c) auto
  have r: "run w acts st1 = (Next, st')" using Cons.prems e c by simp
  show ?case using Cons.IH[OF r] e c by (cases a) (simp_all add: callField_def)
qed


lemmas seed_eval = Seed_def seedLoops_def seedField_def andThen_def seedFromSeed_def seedFromEnv_def
  registerFlag_def seedFromFile_def seedFromConsul_def seedFromRedis_def seedFromGetter_def
  applySet_def setSeeded_def initState_def unseededReport_def notSeededText_def seed_New_def
  exampleWorld_def cellSet_def SeedTrace_def traced_def tracedSet_def

lemmas example_fields = levelField_def modeField_def retentionField_def indexField_def
  balanceField_def hostField_def plainField_def logLevelField_def everyField_def

text \<open>
  The precedence example of the specification: a field with the seed \<open>DEBUG\<close>, an
  environment variable set to \<open>INFO\<close> and a flag that is not on the command line is
  set to \<open>DEBUG\<close> and then to \<open>INFO\<close>, and keeps \<open>INFO\<close>.
\<close>

lemma precedence_example:
  "SeedTrace exampleWorld (seed_New []) \<lparr> Fields = [logLevelField] \<rparr> Map.empty =
     (None, [8 \<mapsto> (''INFO'', 0)],
      [(logLevelField, ''DEBUG'', 0, None), (logLevelField, ''INFO'', 0, None)])"
  by (simp add: seed_eval example_fields)

text \<open>
  A field with all six sources, each of them applicable: the calls are made for the
  seed, the environment, the file, Consul and Redis, in this order, and for the flag
  last; the field keeps the value of the flag.
\<close>

lemma every_source_example:
  "SeedTrace fullWorld
      (seed_New [\<lparr> src = SourceConsul, getter = consulGetter \<rparr>, \<lparr> src = SourceRedis, getter = redisGetter \<rparr>])
      \<lparr> Fields = [everyField] \<rparr> Map.empty =
     (None, [12 \<mapsto> (''TRACE'', 0)],
      [(everyField, ''DEBUG'', 0, None), (everyField, ''INFO'', 0, None),
       (everyField, ''ERROR'', 0, None), (everyField, ''FATAL'', 11, None),
       (everyField, ''WARN'', 3, None), (everyField, ''TRACE'', 0, None)])"
  by (simp add: seed_eval example_fields fullWorld_def consulGetter_def redisGetter_def)

text \<open>
  Claim C1 says that after a failed Consul lookup the remaining sources of the field
  are still tried. The code leaves the loop body with \<^verbatim>\<open>continue\<close> instead: for a
  field with a Consul key and a Redis key, a Consul getter that returns an error and
  a Redis getter that holds \<open>WARN\<close> at version 3, \<^verbatim>\<open>Seed\<close> makes no call of
  \<^verbatim>\<open>Field.Set\<close> at all and reports the field as not seeded.
\<close>

theorem consul_error_skips_redis:
  "SeedTrace exampleWorld
      (seed_New [\<lparr> src = SourceConsul, getter = failingGetter \<rparr>, \<lparr> src = SourceRedis, getter = redisGetter \<rparr>])
      \<lparr> Fields = [levelField] \<rparr> Map.empty =
   (Some (Error ''field Level not seeded''), Map.empty, [])"
  by (simp add: seed_eval example_fields failingGetter_def redisGetter_def)

text \<open>
  Claim C2 says that each later applicable source overwrites the earlier value. For a
  field with the seed \<open>DEBUG\<close>, a Consul key that the store does not have and a Redis
  key holding \<open>WARN\<close>, the only call \<^verbatim>\<open>Seed\<close> makes is the one for the seed: the
  field keeps \<open>DEBUG\<close>, the Redis value is never applied.
\<close>

theorem missing_consul_value_keeps_seed:
  "SeedTrace exampleWorld
      (seed_New [\<lparr> src = SourceConsul, getter = emptyGetter \<rparr>, \<lparr> src = SourceRedis, getter = redisGetter \<rparr>])
      \<lparr> Fields = [modeField] \<rparr> Map.empty =
   (None, [2 \<mapsto> (''DEBUG'', 0)], [(modeField, ''DEBUG'', 0, None)])"
  by (simp add: seed_eval example_fields emptyGetter_def redisGetter_def)

text \<open>
  Claim C10. Whenever a call of \<^verbatim>\<open>Field.Set\<close> that \<^verbatim>\<open>Seed\<close> makes returns an
  error, whatever the source of the value (seed, environment, file, Consul, Redis or
  flag), that call is the last one \<^verbatim>\<open>Seed\<close> makes and \<^verbatim>\<open>Seed\<close> returns exactly
  that error, not the report of the fields that were not seeded; the store is the one
  the calls up to and including the failed one left, so no later source and no later
  field was processed.
\<close>

theorem set_failure_aborts_seed:
  assumes "SeedTrace w s c s0 = (r, s1, log)" and "i < length log" and "callError (log ! i) = Some err"
  shows "i = length log - 1 \<and> r = Some (Error err) \<and> Seed w s c s0 = (Some (Error err), s1) \<and>
         s1 = foldl (applyCall (fieldSet w)) s0 log"
proof -
  let ?plan = "seedPlan w (getters s) (Fields c)"
  have log: "log = callsOf w ?plan (initState s0)" and r: "r = fst (Seed w s c s0)"
    and s1: "s1 = snd (Seed w s c s0)"
    using assms(1) by (simp_all add: SeedTrace_eq)
  have mem: "log ! i \<in> set log" using assms(2) by simp
  note E = callsOf_errors[of w ?plan "initState s0", folded log]
  have stop: "fst (run w ?plan (initState s0)) = Stop (Error err)"
    using E mem assms(3) by blast
  have last: "i = length log - 1"
  proof (rule ccontr)
    assume "i \<noteq> length log - 1"
    then have "i < length (butlast log)" using assms(2) by simp
    then have "log ! i \<in> set (butlast log)" by (metis nth_butlast nth_mem)
    then show False using E assms(3) by auto
  qed
  obtain st1 where run: "run w ?plan (initState s0) = (Stop (Error err), st1)"
    using stop by (cases "run w ?plan (initState s0)") auto
  have seed: "Seed w s c s0 = (Some (Error err), store st1)"
    by (simp add: Seed_run run)
  have st: "store st1 = foldl (applyCall (fieldSet w)) s0 log"
    using callsOf_store[of w ?plan "initState s0"] run log by simp
  show ?thesis using last seed r s1 st by simp
qed

theorem set_failure_aborts_seed_witness:
  "SeedTrace exampleWorld (seed_New []) \<lparr> Fields = [retentionField, indexField] \<rparr> Map.empty =
     (Some (Error ''invalid syntax''), [3 \<mapsto> (''43200'', 0)],
      [(retentionField, ''43200'', 0, None), (retentionField, ''NaN'', 0, Some ''invalid syntax'')]) \<and>
   callError ([(retentionField, ''43200'', 0, None),
               (retentionField, ''NaN'', 0, Some ''invalid syntax'')] ! 1) = Some ''invalid syntax'' \<and>
   Seed exampleWorld (seed_New []) \<lparr> Fields = [retentionField, indexField] \<rparr> Map.empty =
     (Some (Error ''invalid syntax''), [3 \<mapsto> (''43200'', 0)])"
proof -
  have t: "SeedTrace exampleWorld (seed_New []) \<lparr> Fields = [retentionField, indexField] \<rparr> Map.empty =
     (Some (Error ''invalid syntax''), [3 \<mapsto> (''43200'', 0)],
      [(retentionField, ''43200'', 0, None), (retentionField, ''NaN'', 0, Some ''invalid syntax'')])"
    by (simp add: seed_eval example_fields)
  from set_failure_aborts_seed[OF t, of 1 "''invalid syntax''"] show ?thesis
    using t by (simp add: callError_def)
qed


section \<open>The seeder: the final report\<close>

lemma setsOf_simps [simp]:
  "setsOf [] = {}" "setsOf (a # acts) = set (setOn a) \<union> setsOf acts"
  "setsOf (xs @ ys) = setsOf xs \<union> setsOf ys"
  by (auto simp: setsOf_def)

lemma exec_seedMap:
  "exec w a st = (Next, st1) \<Longrightarrow>
   map_of (seedMap st1) f = mark f (map_of (seedMap st) f) a \<and>
   (distinct (map fst (seedMap st)) \<longrightarrow> distinct (map fst (seedMap st1)))"
  by (cases a)
     (auto simp: setSeeded_def applySet_def update_conv' distinct_update
           split: option.splits prod.splits)

lemma run_seedMap:
  "run w acts st = (Next, st') \<Longrightarrow>
   map_of (seedMap st') f = foldl (mark f) (map_of (seedMap st) f) acts \<and>
   (distinct (map fst (seedMap st)) \<longrightarrow> distinct (map fst (seedMap st')))"
proof (induction acts arbitrary: st)
  case Nil
  then show ?case by simp
next
  case (Cons a acts)
  obtain c st1 where e: "exec w a st = (c, st1)" by (cases "exec w a st")
  have c: "c = Next" using Cons.prems e by (cases c) auto
  have r: "run w acts st1 = (Next, st')" using Cons.prems e c by simp
  show ?case using Cons.IH[OF r] exec_seedMap[OF e[unfolded c], of f] by simp
qed

lemma marks_noVisit:
  "\<forall>a \<in> set acts. \<not> isVisit a \<Longrightarrow>
   foldl (mark f) b acts = (if f \<in> setsOf acts then Some True else b)"
proof (induction acts arbitrary: b)
  case Nil
  then show ?case by simp
next
  case (Cons a acts)
  then show ?case by (cases a) auto
qed

lemma parts_shape:
  "\<forall>a \<in> set (seedPart g). \<not> isVisit a \<and> set (setOn a) \<subseteq> {g}"
  "\<forall>a \<in> set (envPart w g). \<not> isVisit a \<and> set (setOn a) \<subseteq> {g}"
  "\<forall>a \<in> set (flagPart g). \<not> isVisit a \<and> set (setOn a) \<subseteq> {g}"
  "\<forall>a \<in> set (filePart w g). \<not> isVisit a \<and> set (setOn a) \<subseteq> {g}"
  "\<forall>a \<in> set (fst (getterPart gg source required g)). \<not> isVisit a \<and> set (setOn a) \<subseteq> {g}"
  by (auto simp: seedPart_def envPart_def flagPart_def filePart_def getterPart_def
        split: option.splits sum.splits prod.splits)

lemma storePart_shape: "\<forall>a \<in> set (storePart gg g). \<not> isVisit a \<and> set (setOn a) \<subseteq> {g}"
  using parts_shape(5)[of gg SourceConsul "''consul getter required''" g]
        parts_shape(5)[of gg SourceRedis "''redis getter required''" g]
  by (cases "getterPart gg SourceConsul ''consul getter required'' g") (auto simp: storePart_def)

lemma bodyPlan_shape: "\<forall>a \<in> set (bodyPlan w gg g). \<not> isVisit a \<and> set (setOn a) \<subseteq> {g}"
  using parts_shape(1)[of g] parts_shape(2)[of w g] parts_shape(3)[of g] parts_shape(4)[of w g]
    storePart_shape[of gg g]
  by (simp add: bodyPlan_def ball_Un)

lemma setsOf_body: "setsOf (bodyPlan w gg g) \<subseteq> {g}"
  using bodyPlan_shape[of w gg g] by (auto simp: setsOf_def)

lemma setsOf_fieldPlan: "setsOf (fieldPlan w gg g) = setsOf (bodyPlan w gg g)"
  by (simp add: fieldPlan_def)

lemma marks_fieldPlan:
  "foldl (mark f) b (fieldPlan w gg g) =
     (if g = f then Some (f \<in> setsOf (fieldPlan w gg f)) else b)"
proof -
  have nv: "\<forall>a \<in> set (bodyPlan w gg g). \<not> isVisit a" using bodyPlan_shape by blast
  show ?thesis
    using setsOf_body[of w gg g]
    by (auto simp: fieldPlan_def marks_noVisit[OF nv])
qed

lemma marks_loop:
  "foldl (mark f) b (concat (map (fieldPlan w gg) ff)) =
     (if f \<in> set ff then Some (f \<in> setsOf (fieldPlan w gg f)) else b)"
  by (induction ff arbitrary: b) (simp_all add: marks_fieldPlan)

lemma setsOf_loop:
  "setsOf (concat (map (fieldPlan w gg) ff)) = {f \<in> set ff. f \<in> setsOf (fieldPlan w gg f)}"
proof (induction ff)
  case Nil
  then show ?case by simp
next
  case (Cons g ff)
  show ?case using setsOf_body[of w gg g] Cons.IH
    by (auto simp: setsOf_fieldPlan)
qed

lemma flag_shape:
  "\<forall>a \<in> set (concat (map (flagApply w) (flagKeys ff))). \<not> isVisit a \<and> set (setOn a) \<subseteq> set ff"
  by (auto simp: flagApply_def flagKeys_def split: option.splits)

lemma marks_plan:
  "foldl (mark f) None (seedPlan w gg ff) =
     (if f \<in> set ff then Some (f \<in> setsOf (seedPlan w gg ff)) else None)"
proof -
  let ?flags = "concat (map (flagApply w) (flagKeys ff))"
  have nv: "\<forall>a \<in> set ?flags. \<not> isVisit a" using flag_shape by blast
  have sub: "setsOf ?flags \<subseteq> set ff" using flag_shape[of w ff] by (auto simp: setsOf_def)
  show ?thesis
    using sub by (auto simp: seedPlan_def marks_loop marks_noVisit[OF nv] setsOf_loop)
qed

lemma report_concat:
  "concat (map (\<lambda>(f, seeded). if \<not> seeded then notSeededText f else []) xs) =
   concat (map notSeededText (map fst (filter (\<lambda>(f, seeded). \<not> seeded) xs)))"
  by (induction xs) auto

lemma notSeededText_nonempty: "notSeededText f \<noteq> []"
  by (simp add: notSeededText_def)

lemma concat_texts_empty: "concat (map notSeededText fs) = [] \<longleftrightarrow> fs = []"
  by (cases fs) (simp_all add: notSeededText_nonempty)

text \<open>
  Claim C3, as stated, fails: \<^verbatim>\<open>Seed\<close> also returns an error when a getter that a
  field needs is not registered (and when \<^verbatim>\<open>Field.Set\<close> fails), although every
  field has received a value. Here the only field has been set from its seed, no field
  is unseeded, and \<^verbatim>\<open>Seed\<close> returns \<open>consul getter required\<close>.
\<close>

theorem seed_error_with_every_field_seeded:
  "SeedTrace exampleWorld (seed_New []) \<lparr> Fields = [balanceField] \<rparr> Map.empty =
     (Some (Error ''consul getter required''), [5 \<mapsto> (''0.0'', 0)], [(balanceField, ''0.0'', 0, None)]) \<and>
   unseeded \<lparr> Fields = [balanceField] \<rparr> [(balanceField, ''0.0'', 0, None)] = []"
  by (simp add: seed_eval example_fields unseeded_def callField_def)

text \<open>
  Claim C3, amended. When \<^verbatim>\<open>Seed\<close> is not left from inside its two loops (no call
  of \<^verbatim>\<open>Field.Set\<close> fails, no required getter is missing, no flag definition
  panics) and \<^verbatim>\<open>range seedMap\<close> visits each entry once: \<^verbatim>\<open>Seed\<close> returns an error
  if and only if at least one field received no value, that is, no call of
  \<^verbatim>\<open>Field.Set\<close> was made on it; the error is a single one whose text is, for every
  such field exactly once and in some order, \<open>field <name> not seeded\<close>; every call
  made has succeeded, and the store returned with the error is the one these calls
  left, so the fields that were seeded keep their values.
\<close>

theorem seed_reports_unseeded_fields:
  assumes perm: "\<forall>sm. mset (rangeOrder w sm) = mset sm"
    and fin: "fst (seedLoops w s c s0) = Next"
    and tr: "SeedTrace w s c s0 = (r, s1, log)"
  shows "Seed w s c s0 = (r, s1) \<and>
         s1 = foldl (applyCall (fieldSet w)) s0 log \<and>
         list_all (\<lambda>x. callError x = None) log \<and>
         (r \<noteq> None \<longleftrightarrow> unseeded c log \<noteq> []) \<and>
         (\<exists>fs. mset fs = mset (unseeded c log) \<and>
               r = (if fs = [] then None else Some (Error (concat (map notSeededText fs)))))"
proof -
  let ?plan = "seedPlan w (getters s) (Fields c)"
  let ?ff = "Fields c"
  obtain st where run: "run w ?plan (initState s0) = (Next, st)"
    using fin by (cases "run w ?plan (initState s0)") (simp add: seedLoops_run)
  have log: "log = callsOf w ?plan (initState s0)" and r: "r = fst (Seed w s c s0)"
    and s1: "s1 = snd (Seed w s c s0)"
    using tr by (simp_all add: SeedTrace_eq)
  let ?sm = "seedMap st"
  let ?ro = "rangeOrder w ?sm"
  let ?fs = "map fst (filter (\<lambda>(f, seeded). \<not> seeded) ?ro)"
  have rep: "unseededReport w ?sm = concat (map notSeededText ?fs)"
    by (simp add: unseededReport_def report_concat)
  have seed: "Seed w s c s0 =
       (if ?fs = [] then None else Some (Error (concat (map notSeededText ?fs))), store st)"
    using concat_texts_empty[of ?fs] by (simp add: Seed_run run rep)
  have store: "store st = foldl (applyCall (fieldSet w)) s0 log"
    using callsOf_store[of w ?plan "initState s0"] run log by simp
  have noerr: "\<forall>x \<in> set log. callError x = None"
  proof
    fix x assume x: "x \<in> set log"
    show "callError x = None"
    proof (cases "callError x")
      case (Some e)
      then have "fst (run w ?plan (initState s0)) = Stop (Error e)"
        using callsOf_errors[of w ?plan "initState s0"] x log by blast
      then show ?thesis using run by simp
    qed simp
  qed
  have called: "set (map callField log) = setsOf ?plan"
    using callsOf_Next[OF run] log by (simp add: setsOf_def)
  have mo: "\<And>f. map_of ?sm f = (if f \<in> set ?ff then Some (f \<in> setsOf ?plan) else None)"
    and dist: "distinct (map fst ?sm)"
    using run_seedMap[OF run] by (simp_all add: marks_plan)
  have falses: "\<And>f. (f, False) \<in> set ?sm \<longleftrightarrow> f \<in> set ?ff \<and> f \<notin> setsOf ?plan"
  proof -
    fix f
    have "(f, False) \<in> set ?sm \<longleftrightarrow> map_of ?sm f = Some False"
      using map_of_eq_Some_iff[OF dist, of f False] by simp
    also have "\<dots> \<longleftrightarrow> f \<in> set ?ff \<and> f \<notin> setsOf ?plan"
      unfolding mo by simp
    finally show "(f, False) \<in> set ?sm \<longleftrightarrow> f \<in> set ?ff \<and> f \<notin> setsOf ?plan" .
  qed
  have m1: "mset ?fs = mset (map fst (filter (\<lambda>(f, seeded). \<not> seeded) ?sm))"
    using perm by simp
  have d1: "distinct (map fst (filter (\<lambda>(f, seeded). \<not> seeded) ?sm))"
    using dist by (rule distinct_map_filter)
  have set1: "set (map fst (filter (\<lambda>(f, seeded). \<not> seeded) ?sm)) = set (unseeded c log)"
  proof -
    have "set (map fst (filter (\<lambda>(f, seeded). \<not> seeded) ?sm)) = {f. (f, False) \<in> set ?sm}"
      by (auto simp: image_iff)
    also have "\<dots> = {f \<in> set ?ff. f \<notin> setsOf ?plan}"
      using falses by simp
    also have "\<dots> = set (unseeded c log)"
      unfolding unseeded_def called by auto
    finally show ?thesis .
  qed
  have d2: "distinct (unseeded c log)" by (simp add: unseeded_def)
  have m2: "mset (map fst (filter (\<lambda>(f, seeded). \<not> seeded) ?sm)) = mset (unseeded c log)"
    using set_eq_iff_mset_eq_distinct[OF d1 d2] set1 by simp
  have m: "mset ?fs = mset (unseeded c log)" using m1 m2 by simp
  have e: "?fs = [] \<longleftrightarrow> unseeded c log = []"
    using m by (metis mset_zero_iff)
  have rr: "r = (if ?fs = [] then None else Some (Error (concat (map notSeededText ?fs))))"
    using r seed by simp
  have a: "Seed w s c s0 = (r, s1)" using r s1 by simp
  have b: "s1 = foldl (applyCall (fieldSet w)) s0 log" using s1 seed store by simp
  have c: "r \<noteq> None \<longleftrightarrow> unseeded c log \<noteq> []" using rr e by simp
  have d: "\<exists>fs. mset fs = mset (unseeded c log) \<and>
               r = (if fs = [] then None else Some (Error (concat (map notSeededText fs))))"
    using m rr by blast
  show ?thesis using a b noerr c d by (simp add: list_all_iff)
qed

theorem seed_reports_unseeded_fields_witness:
  "(\<forall>sm. mset (rangeOrder exampleWorld sm) = mset sm) \<and>
   fst (seedLoops exampleWorld (seed_New []) \<lparr> Fields = [indexField, hostField, plainField] \<rparr> Map.empty) = Next \<and>
   SeedTrace exampleWorld (seed_New []) \<lparr> Fields = [indexField, hostField, plainField] \<rparr> Map.empty =
     (Some (Error ''field Plain not seededfield Host not seeded''), [4 \<mapsto> (''customers-v1'', 0)],
      [(indexField, ''customers-v1'', 0, None)]) \<and>
   Seed exampleWorld (seed_New []) \<lparr> Fields = [indexField, hostField, plainField] \<rparr> Map.empty =
     (Some (Error ''field Plain not seededfield Host not seeded''), [4 \<mapsto> (''customers-v1'', 0)]) \<and>
   unseeded \<lparr> Fields = [indexField, hostField, plainField] \<rparr> [(indexField, ''customers-v1'', 0, None)] =
     [hostField, plainField]"
proof -
  let ?c = "\<lparr> Fields = [indexField, hostField, plainField] \<rparr>"
  have p: "\<forall>sm. mset (rangeOrder exampleWorld sm) = mset sm"
    by (simp add: exampleWorld_def)
  have f: "fst (seedLoops exampleWorld (seed_New []) ?c Map.empty) = Next"
    by (simp add: seed_eval example_fields)
  have t: "SeedTrace exampleWorld (seed_New []) ?c Map.empty =
     (Some (Error ''field Plain not seededfield Host not seeded''), [4 \<mapsto> (''customers-v1'', 0)],
      [(indexField, ''customers-v1'', 0, None)])"
    by (simp add: seed_eval example_fields)
  have u: "unseeded ?c [(indexField, ''customers-v1'', 0, None)] = [hostField, plainField]"
    by (simp add: unseeded_def callField_def example_fields)
  from seed_reports_unseeded_fields[OF p f t] show ?thesis using p f t u by simp
qed

end
